theory Spec2Isabelle
  imports Complex_Main
begin

section \<open>Strings\<close>

text \<open>
  A JavaScript string is modelled as a \<open>string\<close>: a list of characters, each standing
  for the code unit of the same number (0 to 255, the Latin-1 range). The helpers below
  are the string methods and regular-expression classes that \<open>src/app.js\<close> uses.
\<close>

definition code :: "char \<Rightarrow> nat" where
  "code c = of_char c"

definition in_range :: "char \<Rightarrow> char \<Rightarrow> char \<Rightarrow> bool" where
  \<comment> \<open>the character range \<open>[lo-hi]\<close> of a regular expression\<close>
  "in_range lo hi c = (code lo \<le> code c \<and> code c \<le> code hi)"

definition is_upper :: "char \<Rightarrow> bool" where
  \<comment> \<open>\<open>[A-Z]\<close>\<close>
  "is_upper c = in_range CHR ''A'' CHR ''Z'' c"

definition is_lower :: "char \<Rightarrow> bool" where
  "is_lower c = in_range CHR ''a'' CHR ''z'' c"

definition is_digit :: "char \<Rightarrow> bool" where
  \<comment> \<open>\<open>\d\<close>, that is \<open>[0-9]\<close>\<close>
  "is_digit c = in_range CHR ''0'' CHR ''9'' c"

definition is_space :: "char \<Rightarrow> bool" where
  \<comment> \<open>\<open>\s\<close>: tab, line feed, vertical tab, form feed, carriage return, space and the
      no-break space (the white space and line terminators below 256)\<close>
  "is_space c = (code c \<in> {9, 10, 11, 12, 13, 32, 160})"

definition is_word :: "char \<Rightarrow> bool" where
  \<comment> \<open>\<open>\w\<close>, that is \<open>[A-Za-z0-9_]\<close>\<close>
  "is_word c = (is_upper c \<or> is_lower c \<or> is_digit c \<or> c = CHR ''_'')"

definition upper_char :: "char \<Rightarrow> string" where
  \<comment> \<open>the upper-case mapping of one code unit: \<open>a-z\<close> to \<open>A-Z\<close>; the sharp s (223)
      to \<open>SS\<close>; the accented letters 224 to 254 (but the division sign 247) to those
      32 below. The micro sign (181) and the y with diaeresis (255) have their upper case
      above 255, outside the strings of this model, and are left as they are\<close>
  "upper_char c =
     (if is_lower c then [char_of (code c - 32)]
      else if code c = 223 then ''SS''
      else if 224 \<le> code c \<and> code c \<le> 254 \<and> code c \<noteq> 247 then [char_of (code c - 32)]
      else [c])"

definition toUpperCase :: "string \<Rightarrow> string" where
  "toUpperCase s = concat (map upper_char s)"

definition replace_all :: "(char \<Rightarrow> bool) \<Rightarrow> string \<Rightarrow> string \<Rightarrow> string" where
  \<comment> \<open>\<open>s.replace(/[class]/g, r)\<close> for a pattern that matches one character\<close>
  "replace_all P r s = concat (map (\<lambda>c. if P c then r else [c]) s)"

section \<open>Regular expressions\<close>

text \<open>
  The fragment of regular expressions that \<open>UK_REGEXES\<close> is written in, with the
  backtracking semantics of the language: the matcher returns every way to match, in the
  order in which backtracking tries them, so that the head of the list is the match the
  engine reports. A position in the subject string is kept as the pair of the characters
  before it (nearest first) and the characters after it.
\<close>

datatype rx =
    Upper              \<comment> \<open>\<open>[A-Z]\<close>\<close>
  | Digit              \<comment> \<open>\<open>\d\<close>\<close>
  | Space              \<comment> \<open>\<open>\s\<close>\<close>
  | WordB              \<comment> \<open>\<open>\b\<close>\<close>
  | Opt rx             \<comment> \<open>\<open>r?\<close>, greedy\<close>
  | Rep nat nat rx     \<comment> \<open>\<open>r{lo,hi}\<close>, greedy\<close>
  | Seq rx rx

type_synonym pos = "string \<times> string"

definition one_char :: "(char \<Rightarrow> bool) \<Rightarrow> pos \<Rightarrow> pos list" where
  "one_char P p =
     (case snd p of
        [] \<Rightarrow> []
      | c # rest \<Rightarrow> if P c then [(c # fst p, rest)] else [])"

definition word_before :: "pos \<Rightarrow> bool" where
  "word_before p = (case fst p of [] \<Rightarrow> False | c # _ \<Rightarrow> is_word c)"

definition word_after :: "pos \<Rightarrow> bool" where
  "word_after p = (case snd p of [] \<Rightarrow> False | c # _ \<Rightarrow> is_word c)"

primrec rep_match :: "(pos \<Rightarrow> pos list) \<Rightarrow> nat \<Rightarrow> nat \<Rightarrow> pos \<Rightarrow> pos list" where
  "rep_match m lo 0 p = (if lo = 0 then [p] else [])"
| "rep_match m lo (Suc hi) p =
     concat (map (rep_match m (lo - 1) hi) (m p)) @ (if lo = 0 then [p] else [])"

primrec rmatch :: "rx \<Rightarrow> pos \<Rightarrow> pos list" where
  "rmatch Upper p = one_char is_upper p"
| "rmatch Digit p = one_char is_digit p"
| "rmatch Space p = one_char is_space p"
| "rmatch WordB p = (if word_before p \<noteq> word_after p then [p] else [])"
| "rmatch (Opt r) p = rmatch r p @ [p]"
| "rmatch (Rep lo hi r) p = rep_match (rmatch r) lo hi p"
| "rmatch (Seq r1 r2) p = concat (map (rmatch r2) (rmatch r1 p))"

text \<open>
  \<open>[...t.matchAll(re)]\<close> for a global pattern: the search starts at \<open>lastIndex = 0\<close>,
  tries each start position from \<open>lastIndex\<close> on, reports the first match found there,
  and resumes at the end of that match (one further when the match is empty). \<open>skip\<close>
  is the number of positions still to pass before \<open>lastIndex\<close> is reached. The result
  lists the matched substrings in the order of their positions.
\<close>

definition matched :: "pos \<Rightarrow> pos \<Rightarrow> string" where
  \<comment> \<open>the text between a start position and an end position\<close>
  "matched p q = take (length (snd p) - length (snd q)) (snd p)"

fun scan :: "rx \<Rightarrow> nat \<Rightarrow> string \<Rightarrow> string \<Rightarrow> string list" where
  "scan r skip seen [] =
     (if skip = 0 then
        (case rmatch r (seen, []) of
           [] \<Rightarrow> []
         | q # _ \<Rightarrow> [matched (seen, []) q])
      else [])"
| "scan r skip seen (c # rest) =
     (if skip = 0 then
        (case rmatch r (seen, c # rest) of
           [] \<Rightarrow> scan r 0 (c # seen) rest
         | q # _ \<Rightarrow>
             matched (seen, c # rest) q
               # scan r (length (matched (seen, c # rest) q) - 1) (c # seen) rest)
      else scan r (skip - 1) (c # seen) rest)"

definition matchAll :: "rx \<Rightarrow> string \<Rightarrow> string list" where
  "matchAll r t = scan r 0 [] t"

section \<open>The plate normaliser\<close>

text \<open>
  \<^verbatim>\<open>
  this.UK_REGEXES = [
      /\b([A-Z]{2}\d{2}\s?[A-Z]{3})\b/g,              // current format
      /\b([A-Z]{1,3}\d{1,4}\s?[A-Z]{1,3})\b/g,         // cherished formats
  ];
  \<close>
  The group brackets the whole consuming part of each pattern (\<open>\b\<close> consumes nothing),
  so group 1 of a match is the matched text.
\<close>

definition re_current :: rx where
  "re_current =
     Seq WordB (Seq (Rep 2 2 Upper) (Seq (Rep 2 2 Digit) (Seq (Opt Space)
       (Seq (Rep 3 3 Upper) WordB))))"

definition re_cherished :: rx where
  "re_cherished =
     Seq WordB (Seq (Rep 1 3 Upper) (Seq (Rep 1 4 Digit) (Seq (Opt Space)
       (Seq (Rep 1 3 Upper) WordB))))"

definition UK_REGEXES :: "rx list" where
  "UK_REGEXES = [re_current, re_cherished]"

definition clean :: "string \<Rightarrow> string" where
  \<comment> \<open>\<open>text.toUpperCase().replace(/\n/g, ' ').replace(/[^A-Z0-9 ]/g, '').replace(/O/g, '0')\<close>\<close>
  "clean text =
     replace_all (\<lambda>c. c = CHR ''O'') ''0''
       (replace_all (\<lambda>c. \<not> (is_upper c \<or> is_digit c \<or> c = CHR '' '')) ''''
         (replace_all (\<lambda>c. code c = 10) '' ''
           (toUpperCase text)))"

definition strip_ws :: "string \<Rightarrow> string" where
  \<comment> \<open>\<open>m[1].replace(/\s/g, '')\<close>\<close>
  "strip_ws s = replace_all is_space '''' s"

definition badness :: "string \<Rightarrow> int" where
  \<comment> \<open>\<open>Math.abs(7 - a.length)\<close>\<close>
  "badness a = \<bar>7 - int (length a)\<bar>"

text \<open>
  \<^verbatim>\<open>
  normalisePlate(text) {
      if (!text) return null;
      let t = text.toUpperCase().replace(/\n/g, ' ').replace(/[^A-Z0-9 ]/g, '').replace(/O/g, '0');
      for (const re of this.UK_REGEXES) {
          const matches = [...t.matchAll(re)].map(m => m[1].replace(/\s/g, ''));
          if (matches.length) {
              const best = matches.sort((a, b) => Math.abs(7 - a.length) - Math.abs(7 - b.length))[0];
              return best;
          }
      }
      return null;
  }
  \<close>
  \<open>first_match\<close> is the loop over the patterns. The comparator orders by \<open>badness\<close>,
  and the sort of the language is stable, as the insertion sort \<open>sort_key\<close> is.
\<close>

fun first_match :: "rx list \<Rightarrow> string \<Rightarrow> string option" where
  "first_match [] t = None"
| "first_match (re # res) t =
     (let matches = map strip_ws (matchAll re t)
      in if matches \<noteq> [] then Some (hd (sort_key badness matches))
         else first_match res t)"

definition normalisePlate :: "string option \<Rightarrow> string option" where
  \<comment> \<open>the argument is \<open>None\<close> for \<open>null\<close>; the result is \<open>None\<close> for \<open>null\<close>\<close>
  "normalisePlate text =
     (case text of
        None \<Rightarrow> None
      | Some s \<Rightarrow> if s = [] then None else first_match UK_REGEXES (clean s))"

section \<open>Reference cases of the normaliser\<close>

text \<open>
  C7: \<open>normalisePlate(null)\<close> and \<open>normalisePlate("")\<close> are \<open>null\<close>;
  \<open>"AB12 CDE"\<close> and \<open>"ab12cde"\<close> both give \<open>"AB12CDE"\<close>; \<open>"GF12 ABC parked"\<close> gives
  \<open>"GF12ABC"\<close>, the trailing word being ignored.
\<close>

theorem normalisePlate_reference_cases:
  "normalisePlate None = None
   \<and> normalisePlate (Some []) = None
   \<and> normalisePlate (Some ''AB12 CDE'') = Some ''AB12CDE''
   \<and> normalisePlate (Some ''ab12cde'') = Some ''AB12CDE''
   \<and> normalisePlate (Some ''GF12 ABC parked'') = Some ''GF12ABC''"
proof -
  have a: "normalisePlate None = None"
    by (simp add: normalisePlate_def)
  have b: "normalisePlate (Some []) = None"
    by (simp add: normalisePlate_def)
  have c: "normalisePlate (Some ''AB12 CDE'') = Some ''AB12CDE''"
    by code_simp
  have d: "normalisePlate (Some ''ab12cde'') = Some ''AB12CDE''"
    by code_simp
  have e: "normalisePlate (Some ''GF12 ABC parked'') = Some ''GF12ABC''"
    by code_simp
  from a b c d e show ?thesis by blast
qed

text \<open>
  C1: the letter \<open>O\<close> is rewritten to the digit \<open>0\<close> before any pattern is applied, and
  the text \<open>"0O12 CDE"\<close> is cleaned to \<open>"0012 CDE"\<close>. Both patterns begin with a letter
  at a word boundary, and the only letters of the cleaned text are \<open>CDE\<close> at its end, so
  neither pattern matches: the function returns \<open>null\<close>, where the self test of
  \<open>runTests\<close> (\<open>['0O12 CDE', '0012CDE']\<close>) expects \<open>"0012CDE"\<close>.
\<close>

theorem normalisePlate_0O12_CDE:
  "clean ''0O12 CDE'' = ''0012 CDE''
   \<and> matchAll re_current ''0012 CDE'' = []
   \<and> matchAll re_cherished ''0012 CDE'' = []
   \<and> normalisePlate (Some ''0O12 CDE'') = None"
proof -
  have a: "clean ''0O12 CDE'' = ''0012 CDE''"
    by code_simp
  have b: "matchAll re_current ''0012 CDE'' = []"
    by code_simp
  have c: "matchAll re_cherished ''0012 CDE'' = []"
    by code_simp
  have d: "normalisePlate (Some ''0O12 CDE'') = None"
    by code_simp
  from a b c d show ?thesis by blast
qed

section \<open>The head of a stable sort\<close>


lemma sort_key_Nil_iff: "sort_key f xs = [] \<longleftrightarrow> xs = []"
  by (metis length_sort list.size(3) length_0_conv)


section \<open>What the patterns match\<close>

text \<open>
  Both patterns have one form: a word boundary, letters, digits, an optional white-space
  character, letters, a word boundary. The lemmas below describe the matches of that
  form by the text they consume.
\<close>

definition plate_rx :: "nat \<Rightarrow> nat \<Rightarrow> nat \<Rightarrow> nat \<Rightarrow> nat \<Rightarrow> nat \<Rightarrow> rx" where
  "plate_rx l1 h1 l2 h2 l3 h3 =
     Seq WordB (Seq (Rep l1 h1 Upper) (Seq (Rep l2 h2 Digit) (Seq (Opt Space)
       (Seq (Rep l3 h3 Upper) WordB))))"

lemma re_current_plate_rx: "re_current = plate_rx 2 2 2 2 3 3"
  by (simp add: re_current_def plate_rx_def)

lemma re_cherished_plate_rx: "re_cherished = plate_rx 1 3 1 4 1 3"
  by (simp add: re_cherished_def plate_rx_def)

lemma in_one_char:
  "q \<in> set (one_char P (b, a)) \<longleftrightarrow> (\<exists>c rest. a = c # rest \<and> P c \<and> q = (c # b, rest))"
  by (cases a) (auto simp: one_char_def)

lemma in_rep_class:
  "q \<in> set (rep_match (one_char P) lo hi (b, a)) \<longleftrightarrow>
     (\<exists>u. a = u @ snd q \<and> fst q = rev u @ b \<and> lo \<le> length u \<and> length u \<le> hi
          \<and> (\<forall>x \<in> set u. P x))"
proof (induction hi arbitrary: lo b a)
  case 0
  show ?case by (cases q) auto
next
  case (Suc hi)
  show ?case
  proof
    assume "q \<in> set (rep_match (one_char P) lo (Suc hi) (b, a))"
    then consider
      (more) m where "m \<in> set (one_char P (b, a))"
        "q \<in> set (rep_match (one_char P) (lo - 1) hi m)"
      | (stop) "lo = 0" "q = (b, a)"
      by (auto split: if_splits)
    then show "\<exists>u. a = u @ snd q \<and> fst q = rev u @ b \<and> lo \<le> length u
        \<and> length u \<le> Suc hi \<and> (\<forall>x \<in> set u. P x)"
    proof cases
      case more
      from more(1) obtain c rest where a: "a = c # rest" and c: "P c" and m: "m = (c # b, rest)"
        by (auto simp: in_one_char)
      from more(2) [unfolded m Suc.IH] obtain u where
        u: "rest = u @ snd q" "fst q = rev u @ c # b" "lo - 1 \<le> length u" "length u \<le> hi"
          "\<forall>x \<in> set u. P x"
        by blast
      show ?thesis
        using a c u by (intro exI [of _ "c # u"]) auto
    next
      case stop
      then show ?thesis by (intro exI [of _ "[]"]) simp
    qed
  next
    assume "\<exists>u. a = u @ snd q \<and> fst q = rev u @ b \<and> lo \<le> length u
        \<and> length u \<le> Suc hi \<and> (\<forall>x \<in> set u. P x)"
    then obtain u where u: "a = u @ snd q" "fst q = rev u @ b" "lo \<le> length u"
        "length u \<le> Suc hi" "\<forall>x \<in> set u. P x"
      by blast
    show "q \<in> set (rep_match (one_char P) lo (Suc hi) (b, a))"
    proof (cases u)
      case Nil
      with u have "lo = 0" "q = (b, a)" by (auto simp: prod_eq_iff)
      then show ?thesis by simp
    next
      case (Cons c u')
      with u have m: "(c # b, u' @ snd q) \<in> set (one_char P (b, a))"
        by (simp add: in_one_char)
      have "q \<in> set (rep_match (one_char P) (lo - 1) hi (c # b, u' @ snd q))"
        unfolding Suc.IH using u Cons by (intro exI [of _ u']) auto
      with m show ?thesis by auto
    qed
  qed
qed

lemma in_rep_Upper:
  "q \<in> set (rmatch (Rep lo hi Upper) (b, a)) \<longleftrightarrow>
     (\<exists>u. a = u @ snd q \<and> fst q = rev u @ b \<and> lo \<le> length u \<and> length u \<le> hi
          \<and> (\<forall>x \<in> set u. is_upper x))"
proof -
  have "rmatch Upper = one_char is_upper" by (rule ext) simp
  then show ?thesis by (simp add: in_rep_class)
qed

lemma in_rep_Digit:
  "q \<in> set (rmatch (Rep lo hi Digit) (b, a)) \<longleftrightarrow>
     (\<exists>u. a = u @ snd q \<and> fst q = rev u @ b \<and> lo \<le> length u \<and> length u \<le> hi
          \<and> (\<forall>x \<in> set u. is_digit x))"
proof -
  have "rmatch Digit = one_char is_digit" by (rule ext) simp
  then show ?thesis by (simp add: in_rep_class)
qed

lemma in_opt_Space:
  "q \<in> set (rmatch (Opt Space) (b, a)) \<longleftrightarrow>
     (\<exists>u. a = u @ snd q \<and> fst q = rev u @ b \<and> length u \<le> 1 \<and> (\<forall>x \<in> set u. is_space x))"
proof
  assume "q \<in> set (rmatch (Opt Space) (b, a))"
  then consider (one) c rest where "a = c # rest" "is_space c" "q = (c # b, rest)"
    | (none) "q = (b, a)"
    by (auto simp: in_one_char)
  then show "\<exists>u. a = u @ snd q \<and> fst q = rev u @ b \<and> length u \<le> 1
      \<and> (\<forall>x \<in> set u. is_space x)"
  proof cases
    case one
    then show ?thesis by (intro exI [of _ "[c]"]) simp
  next
    case none
    then show ?thesis by (intro exI [of _ "[]"]) simp
  qed
next
  assume "\<exists>u. a = u @ snd q \<and> fst q = rev u @ b \<and> length u \<le> 1
      \<and> (\<forall>x \<in> set u. is_space x)"
  then obtain u where u: "a = u @ snd q" "fst q = rev u @ b" "length u \<le> 1"
      "\<forall>x \<in> set u. is_space x"
    by blast
  show "q \<in> set (rmatch (Opt Space) (b, a))"
  proof (cases u)
    case Nil
    with u show ?thesis by (simp add: prod_eq_iff)
  next
    case (Cons c u')
    with u have "u' = []" by simp
    with u Cons show ?thesis by (cases q) (simp add: in_one_char)
  qed
qed

lemma in_WordB:
  "q \<in> set (rmatch WordB p) \<longleftrightarrow> q = p \<and> word_before p \<noteq> word_after p"
  by auto

lemma in_Seq:
  "q \<in> set (rmatch (Seq r1 r2) p) \<longleftrightarrow> (\<exists>m \<in> set (rmatch r1 p). q \<in> set (rmatch r2 m))"
  by auto

text \<open>The text of a plate: letters, digits, at most one white-space character, letters.\<close>

definition plate_text ::
  "nat \<Rightarrow> nat \<Rightarrow> nat \<Rightarrow> nat \<Rightarrow> nat \<Rightarrow> nat \<Rightarrow> string \<Rightarrow> string \<Rightarrow> string \<Rightarrow> string \<Rightarrow> bool" where
  "plate_text l1 h1 l2 h2 l3 h3 la ds sp lc =
     (l1 \<le> length la \<and> length la \<le> h1 \<and> (\<forall>x \<in> set la. is_upper x)
      \<and> l2 \<le> length ds \<and> length ds \<le> h2 \<and> (\<forall>x \<in> set ds. is_digit x)
      \<and> length sp \<le> 1 \<and> (\<forall>x \<in> set sp. is_space x)
      \<and> l3 \<le> length lc \<and> length lc \<le> h3 \<and> (\<forall>x \<in> set lc. is_upper x))"

lemma in_plate_rx:
  "q \<in> set (rmatch (plate_rx l1 h1 l2 h2 l3 h3) (b, a)) \<longleftrightarrow>
     (\<exists>la ds sp lc. a = la @ ds @ sp @ lc @ snd q \<and> fst q = rev (la @ ds @ sp @ lc) @ b
        \<and> plate_text l1 h1 l2 h2 l3 h3 la ds sp lc
        \<and> word_before (b, a) \<noteq> word_after (b, a)
        \<and> word_before q \<noteq> word_after q)"
  (is "?L \<longleftrightarrow> ?R")
proof
  assume ?L
  then have wb: "word_before (b, a) \<noteq> word_after (b, a)"
    and "q \<in> set (rmatch (Seq (Rep l1 h1 Upper) (Seq (Rep l2 h2 Digit) (Seq (Opt Space)
       (Seq (Rep l3 h3 Upper) WordB)))) (b, a))"
    unfolding plate_rx_def in_Seq in_WordB by auto
  then obtain m1 m2 m3 m4 where
    m1: "m1 \<in> set (rmatch (Rep l1 h1 Upper) (b, a))"
    and m2: "m2 \<in> set (rmatch (Rep l2 h2 Digit) m1)"
    and m3: "m3 \<in> set (rmatch (Opt Space) m2)"
    and m4: "m4 \<in> set (rmatch (Rep l3 h3 Upper) m3)"
    and q: "q \<in> set (rmatch WordB m4)"
    unfolding in_Seq by blast
  from q have qm: "q = m4" and we: "word_before q \<noteq> word_after q"
    by (auto simp: in_WordB)
  from m1 obtain la where la: "a = la @ snd m1" "fst m1 = rev la @ b" "l1 \<le> length la"
      "length la \<le> h1" "\<forall>x \<in> set la. is_upper x"
    unfolding in_rep_Upper by blast
  from m2 obtain ds where ds: "snd m1 = ds @ snd m2" "fst m2 = rev ds @ fst m1"
      "l2 \<le> length ds" "length ds \<le> h2" "\<forall>x \<in> set ds. is_digit x"
    using in_rep_Digit [of m2 l2 h2 "fst m1" "snd m1"] by auto
  from m3 obtain sp where sp: "snd m2 = sp @ snd m3" "fst m3 = rev sp @ fst m2"
      "length sp \<le> 1" "\<forall>x \<in> set sp. is_space x"
    using in_opt_Space [of m3 "fst m2" "snd m2"] by auto
  from m4 obtain lc where lc: "snd m3 = lc @ snd m4" "fst m4 = rev lc @ fst m3"
      "l3 \<le> length lc" "length lc \<le> h3" "\<forall>x \<in> set lc. is_upper x"
    using in_rep_Upper [of m4 l3 h3 "fst m3" "snd m3"] by auto
  have "a = la @ ds @ sp @ lc @ snd q"
    using la ds sp lc qm by simp
  moreover have "fst q = rev (la @ ds @ sp @ lc) @ b"
    using la ds sp lc qm by simp
  moreover have "plate_text l1 h1 l2 h2 l3 h3 la ds sp lc"
    using la ds sp lc by (simp add: plate_text_def)
  ultimately show ?R using wb we by blast
next
  assume ?R
  then obtain la ds sp lc where a: "a = la @ ds @ sp @ lc @ snd q"
    and f: "fst q = rev (la @ ds @ sp @ lc) @ b"
    and pt: "plate_text l1 h1 l2 h2 l3 h3 la ds sp lc"
    and wb: "word_before (b, a) \<noteq> word_after (b, a)"
    and we: "word_before q \<noteq> word_after q"
    by blast
  let ?m1 = "(rev la @ b, ds @ sp @ lc @ snd q)"
  let ?m2 = "(rev ds @ rev la @ b, sp @ lc @ snd q)"
  let ?m3 = "(rev sp @ rev ds @ rev la @ b, lc @ snd q)"
  have m1: "?m1 \<in> set (rmatch (Rep l1 h1 Upper) (b, a))"
    unfolding in_rep_Upper using a pt by (intro exI [of _ la]) (simp add: plate_text_def)
  have m2: "?m2 \<in> set (rmatch (Rep l2 h2 Digit) ?m1)"
    unfolding in_rep_Digit using pt by (intro exI [of _ ds]) (simp add: plate_text_def)
  have m3: "?m3 \<in> set (rmatch (Opt Space) ?m2)"
    unfolding in_opt_Space using pt by (intro exI [of _ sp]) (simp add: plate_text_def)
  have m4: "q \<in> set (rmatch (Rep l3 h3 Upper) ?m3)"
    unfolding in_rep_Upper using pt f by (intro exI [of _ lc]) (simp add: plate_text_def)
  have q: "q \<in> set (rmatch WordB q)"
    using we by (simp add: in_WordB)
  have p: "(b, a) \<in> set (rmatch WordB (b, a))"
    using wb by (simp add: in_WordB)
  show ?L
    unfolding plate_rx_def in_Seq using p m1 m2 m3 m4 q by blast
qed

subsection \<open>Character classes\<close>

lemma is_upper_iff: "is_upper c \<longleftrightarrow> 65 \<le> code c \<and> code c \<le> 90"
  by (simp add: is_upper_def in_range_def code_def)

lemma is_lower_iff: "is_lower c \<longleftrightarrow> 97 \<le> code c \<and> code c \<le> 122"
  by (simp add: is_lower_def in_range_def code_def)

lemma is_digit_iff: "is_digit c \<longleftrightarrow> 48 \<le> code c \<and> code c \<le> 57"
  by (simp add: is_digit_def in_range_def code_def)

lemma upper_not_space: "is_upper c \<Longrightarrow> \<not> is_space c"
  by (auto simp: is_upper_iff is_space_def)

lemma digit_not_space: "is_digit c \<Longrightarrow> \<not> is_space c"
  by (auto simp: is_digit_iff is_space_def)

lemma strip_ws_filter: "strip_ws s = filter (\<lambda>c. \<not> is_space c) s"
  by (induction s) (auto simp: strip_ws_def replace_all_def)

lemma replace_all_id: "(\<forall>c \<in> set s. \<not> P c) \<Longrightarrow> replace_all P r s = s"
  by (induction s) (auto simp: replace_all_def)

lemma set_replace_all:
  "set (replace_all P r s) \<subseteq> set r \<union> {c \<in> set s. \<not> P c}"
  by (induction s) (auto simp: replace_all_def)

definition plate_char :: "char \<Rightarrow> bool" where
  \<comment> \<open>a letter other than \<open>O\<close>, or a digit\<close>
  "plate_char c = ((is_upper c \<and> c \<noteq> CHR ''O'') \<or> is_digit c)"

lemma set_clean: "c \<in> set (clean x) \<Longrightarrow> plate_char c \<or> c = CHR '' ''"
proof -
  assume c: "c \<in> set (clean x)"
  let ?keep = "\<lambda>c. \<not> (is_upper c \<or> is_digit c \<or> c = CHR '' '')"
  let ?t = "replace_all ?keep [] (replace_all (\<lambda>c. code c = 10) '' '' (toUpperCase x))"
  from c have "c \<in> set ''0'' \<union> {c \<in> set ?t. c \<noteq> CHR ''O''}"
    using set_replace_all [of "\<lambda>c. c = CHR ''O''" "''0''" ?t] by (auto simp: clean_def)
  moreover have "set ?t \<subseteq> {c. is_upper c \<or> is_digit c \<or> c = CHR '' ''}"
    using set_replace_all [of ?keep "[]"] by fastforce
  moreover have "is_digit CHR ''0''"
    by (simp add: is_digit_iff code_def)
  ultimately show ?thesis
    by (auto simp: plate_char_def)
qed

lemma plate_char_not_space: "plate_char c \<Longrightarrow> \<not> is_space c"
  by (auto simp: plate_char_def upper_not_space digit_not_space)

lemma plate_char_word: "plate_char c \<Longrightarrow> is_word c"
  by (auto simp: plate_char_def is_word_def)

lemma toUpperCase_plate: "(\<forall>c \<in> set p. plate_char c) \<Longrightarrow> toUpperCase p = p"
proof (induction p)
  case Nil
  then show ?case by (simp add: toUpperCase_def)
next
  case (Cons c p)
  then have "plate_char c" by simp
  then have "\<not> is_lower c" "code c \<noteq> 223" "\<not> 224 \<le> code c"
    by (auto simp: plate_char_def is_upper_iff is_digit_iff is_lower_iff)
  then have "upper_char c = [c]" by (simp add: upper_char_def)
  with Cons show ?case by (simp add: toUpperCase_def)
qed

lemma plate_char_cases:
  assumes "plate_char c"
  shows "code c \<noteq> 10" and "is_upper c \<or> is_digit c \<or> c = CHR '' ''" and "c \<noteq> CHR ''O''"
proof -
  from assms show "code c \<noteq> 10"
    by (auto simp: plate_char_def is_upper_iff is_digit_iff)
  from assms show "is_upper c \<or> is_digit c \<or> c = CHR '' ''"
    by (auto simp: plate_char_def)
  show "c \<noteq> CHR ''O''"
  proof
    assume "c = CHR ''O''"
    then have "code c = 79" by (simp add: code_def)
    with assms show False
      using \<open>c = CHR ''O''\<close> by (auto simp: plate_char_def is_digit_iff)
  qed
qed

lemma clean_plate:
  assumes "\<forall>c \<in> set p. plate_char c"
  shows "clean p = p"
proof -
  have up: "toUpperCase p = p"
    by (rule toUpperCase_plate [OF assms])
  have nl: "replace_all (\<lambda>c. code c = 10) '' '' p = p"
    by (rule replace_all_id) (use assms plate_char_cases(1) in blast)
  have keep: "replace_all (\<lambda>c. \<not> (is_upper c \<or> is_digit c \<or> c = CHR '' '')) [] p = p"
    by (rule replace_all_id) (use assms plate_char_cases(2) in blast)
  have o: "replace_all (\<lambda>c. c = CHR ''O'') ''0'' p = p"
    by (rule replace_all_id) (use assms plate_char_cases(3) in blast)
  show ?thesis
    unfolding clean_def up nl keep o by (rule refl)
qed

subsection \<open>The matches in a text\<close>

lemma scan_Nil_elem:
  assumes "m \<in> set (scan r k seen [])"
  shows "\<exists>q qs. rmatch r (seen, []) = q # qs \<and> m = matched (seen, []) q"
proof (cases "k = 0")
  case True
  show ?thesis
  proof (cases "rmatch r (seen, [])")
    case Nil
    with assms True show ?thesis by simp
  next
    case (Cons q qs)
    with assms True show ?thesis by simp
  qed
next
  case False
  with assms show ?thesis by simp
qed

lemma scan_Cons_elem:
  assumes "m \<in> set (scan r k seen (c # rest))"
  shows "(\<exists>q qs. rmatch r (seen, c # rest) = q # qs \<and> m = matched (seen, c # rest) q)
      \<or> (\<exists>k'. m \<in> set (scan r k' (c # seen) rest))"
proof (cases "k = 0")
  case True
  show ?thesis
  proof (cases "rmatch r (seen, c # rest)")
    case Nil
    with assms True show ?thesis by auto
  next
    case (Cons q qs)
    with assms True show ?thesis by auto
  qed
next
  case False
  with assms show ?thesis by auto
qed

lemma scan_elem:
  "m \<in> set (scan r k seen rest) \<Longrightarrow>
   \<exists>sn rs q. rev sn @ rs = rev seen @ rest \<and> q \<in> set (rmatch r (sn, rs))
      \<and> m = matched (sn, rs) q"
proof (induction rest arbitrary: k seen)
  case Nil
  from scan_Nil_elem [OF Nil]
  obtain q qs where "rmatch r (seen, []) = q # qs" "m = matched (seen, []) q"
    by blast
  then show ?case
    by (intro exI [of _ seen] exI [of _ "[]"] exI [of _ q]) simp
next
  case (Cons c rest)
  from scan_Cons_elem [OF Cons.prems] consider
    (here) q qs where "rmatch r (seen, c # rest) = q # qs"
      "m = matched (seen, c # rest) q"
    | (later) k' where "m \<in> set (scan r k' (c # seen) rest)"
    by blast
  then show ?case
  proof cases
    case here
    then show ?thesis
      by (intro exI [of _ seen] exI [of _ "c # rest"] exI [of _ q]) simp
  next
    case later
    from Cons.IH [OF this] show ?thesis by simp
  qed
qed

lemma matchAll_plate_rx:
  assumes "m \<in> set (matchAll (plate_rx l1 h1 l2 h2 l3 h3) t)"
  shows "\<exists>la ds sp lc. m = la @ ds @ sp @ lc \<and> plate_text l1 h1 l2 h2 l3 h3 la ds sp lc
           \<and> set m \<subseteq> set t"
proof -
  from scan_elem [OF assms [unfolded matchAll_def]]
  obtain sn rs q where t: "rev sn @ rs = t"
    and q: "q \<in> set (rmatch (plate_rx l1 h1 l2 h2 l3 h3) (sn, rs))"
    and m: "m = matched (sn, rs) q"
    by auto
  from q [unfolded in_plate_rx] obtain la ds sp lc where
    rs: "rs = la @ ds @ sp @ lc @ snd q" and pt: "plate_text l1 h1 l2 h2 l3 h3 la ds sp lc"
    by blast
  have "m = la @ ds @ sp @ lc"
    using m rs by (simp add: matched_def)
  moreover have "set (la @ ds @ sp @ lc) \<subseteq> set t"
    using t rs by auto
  ultimately show ?thesis using pt by blast
qed

lemma strip_plate_text:
  assumes "plate_text l1 h1 l2 h2 l3 h3 la ds sp lc"
  shows "strip_ws (la @ ds @ sp @ lc) = la @ ds @ lc"
proof -
  from assms have "filter (\<lambda>c. \<not> is_space c) la = la"
    "filter (\<lambda>c. \<not> is_space c) ds = ds" "filter (\<lambda>c. \<not> is_space c) lc = lc"
    "filter (\<lambda>c. \<not> is_space c) sp = []"
    by (auto simp: plate_text_def upper_not_space digit_not_space filter_id_conv
        filter_empty_conv)
  then show ?thesis by (simp add: strip_ws_filter)
qed

text \<open>A canonical plate: one to three letters, one to four digits, one to three letters,
  none of them the letter \<open>O\<close>.\<close>

definition canonical :: "string \<Rightarrow> bool" where
  "canonical p =
     (\<exists>la ds lc. p = la @ ds @ lc \<and> plate_text 1 3 1 4 1 3 la ds [] lc
        \<and> (\<forall>c \<in> set p. plate_char c))"

lemma plate_text_weaken:
  "plate_text 2 2 2 2 3 3 la ds sp lc \<Longrightarrow> plate_text 1 3 1 4 1 3 la ds sp lc"
  by (simp add: plate_text_def)

lemma plate_text_no_space:
  "plate_text l1 h1 l2 h2 l3 h3 la ds sp lc \<Longrightarrow> plate_text l1 h1 l2 h2 l3 h3 la ds [] lc"
  by (simp add: plate_text_def)

lemma stripped_match_canonical:
  assumes m: "m \<in> set (matchAll re (clean x))" and re: "re = re_current \<or> re = re_cherished"
  shows "canonical (strip_ws m)"
proof -
  have "\<exists>la ds sp lc. m = la @ ds @ sp @ lc \<and> plate_text 1 3 1 4 1 3 la ds sp lc
      \<and> set m \<subseteq> set (clean x)"
  proof (cases "re = re_current")
    case True
    with m have "m \<in> set (matchAll (plate_rx 2 2 2 2 3 3) (clean x))"
      by (simp add: re_current_plate_rx)
    from matchAll_plate_rx [OF this] show ?thesis
      using plate_text_weaken by blast
  next
    case False
    with re m have "m \<in> set (matchAll (plate_rx 1 3 1 4 1 3) (clean x))"
      by (simp add: re_cherished_plate_rx)
    from matchAll_plate_rx [OF this] show ?thesis .
  qed
  then obtain la ds sp lc where
    eq: "m = la @ ds @ sp @ lc" and pt: "plate_text 1 3 1 4 1 3 la ds sp lc"
    and sub: "set m \<subseteq> set (clean x)"
    by blast
  have s: "strip_ws m = la @ ds @ lc"
    using eq strip_plate_text [OF pt] by simp
  have "\<forall>c \<in> set (la @ ds @ lc). plate_char c"
  proof
    fix c assume c: "c \<in> set (la @ ds @ lc)"
    then have "c \<in> set (clean x)" using sub eq by auto
    then have "plate_char c \<or> c = CHR '' ''" by (rule set_clean)
    moreover have "c \<noteq> CHR '' ''"
      using c pt by (auto simp: plate_text_def is_upper_iff is_digit_iff code_def)
    ultimately show "plate_char c" by blast
  qed
  with s pt show ?thesis
    unfolding canonical_def by (auto dest: plate_text_no_space)
qed

lemma hd_sort_key_in_set: "xs \<noteq> [] \<Longrightarrow> hd (sort_key f xs) \<in> set xs"
proof -
  assume "xs \<noteq> []"
  then have "sort_key f xs \<noteq> []" by (simp add: sort_key_Nil_iff)
  then have "hd (sort_key f xs) \<in> set (sort_key f xs)" by (rule hd_in_set)
  then show ?thesis by simp
qed

lemma normalisePlate_canonical:
  assumes "normalisePlate x = Some p"
  shows "canonical p"
proof -
  from assms obtain s where x: "x = Some s" "s \<noteq> []"
    and fm: "first_match UK_REGEXES (clean s) = Some p"
    by (auto simp: normalisePlate_def split: option.splits if_splits)
  from fm obtain re where re: "re = re_current \<or> re = re_cherished"
    and ne: "map strip_ws (matchAll re (clean s)) \<noteq> []"
    and p: "p = hd (sort_key badness (map strip_ws (matchAll re (clean s))))"
    by (auto simp: UK_REGEXES_def Let_def split: if_splits)
  from hd_sort_key_in_set [OF ne, of badness] p
  obtain m where "m \<in> set (matchAll re (clean s))" "p = strip_ws m"
    by auto
  with re show ?thesis
    using stripped_match_canonical by blast
qed

lemma normalisePlate_nonempty: "normalisePlate x = Some p \<Longrightarrow> p \<noteq> []"
  by (drule normalisePlate_canonical) (auto simp: canonical_def plate_text_def)

subsection \<open>The matches in a canonical plate\<close>

lemma rev_nonempty_class:
  assumes "1 \<le> length xs" and "\<forall>x \<in> set xs. P x"
  shows "\<exists>y ys. rev xs = y # ys \<and> P y"
proof (cases "rev xs")
  case Nil
  with assms(1) show ?thesis by simp
next
  case (Cons y ys)
  then have "y \<in> set (rev xs)" by simp
  with assms(2) Cons show ?thesis by simp
qed

lemma no_match_inside:
  assumes "seen \<noteq> []" and "\<forall>c \<in> set seen. is_word c" and "1 \<le> l1"
  shows "rmatch (plate_rx l1 h1 l2 h2 l3 h3) (seen, rest) = []"
proof -
  have "q \<notin> set (rmatch (plate_rx l1 h1 l2 h2 l3 h3) (seen, rest))" for q
  proof
    assume "q \<in> set (rmatch (plate_rx l1 h1 l2 h2 l3 h3) (seen, rest))"
    then obtain la ds sp lc where rest: "rest = la @ ds @ sp @ lc @ snd q"
      and pt: "plate_text l1 h1 l2 h2 l3 h3 la ds sp lc"
      and wb: "word_before (seen, rest) \<noteq> word_after (seen, rest)"
      unfolding in_plate_rx by blast
    from pt assms(3) obtain x la' where la: "la = x # la'" and x: "is_upper x"
      by (cases la) (auto simp: plate_text_def)
    have "word_after (seen, rest)"
      using rest la x by (simp add: word_after_def is_word_def)
    moreover have "word_before (seen, rest)"
      using assms(1,2) by (cases seen) (auto simp: word_before_def)
    ultimately show False using wb by simp
  qed
  then show ?thesis
    by (cases "rmatch (plate_rx l1 h1 l2 h2 l3 h3) (seen, rest)") auto
qed

lemma scan_inside:
  assumes "1 \<le> l1"
  shows "seen \<noteq> [] \<Longrightarrow> \<forall>c \<in> set seen \<union> set rest. is_word c \<Longrightarrow>
         scan (plate_rx l1 h1 l2 h2 l3 h3) k seen rest = []"
proof (induction rest arbitrary: k seen)
  case Nil
  then have "rmatch (plate_rx l1 h1 l2 h2 l3 h3) (seen, []) = []"
    using assms by (intro no_match_inside) auto
  then show ?case by simp
next
  case (Cons c rest)
  have m: "rmatch (plate_rx l1 h1 l2 h2 l3 h3) (seen, c # rest) = []"
    using Cons.prems assms by (intro no_match_inside) auto
  have "scan (plate_rx l1 h1 l2 h2 l3 h3) k' (c # seen) rest = []" for k'
    using Cons.prems by (intro Cons.IH) auto
  with m show ?case by simp
qed

lemma match_to_end:
  assumes "\<forall>c \<in> set p. is_word c" and "1 \<le> l3"
    and "q \<in> set (rmatch (plate_rx l1 h1 l2 h2 l3 h3) ([], p))"
  shows "snd q = []"
proof -
  from assms(3) obtain la ds sp lc where p: "p = la @ ds @ sp @ lc @ snd q"
    and f: "fst q = rev (la @ ds @ sp @ lc) @ []"
    and pt: "plate_text l1 h1 l2 h2 l3 h3 la ds sp lc"
    and we: "word_before q \<noteq> word_after q"
    unfolding in_plate_rx by blast
  from pt assms(2) have "1 \<le> length lc" "\<forall>x \<in> set lc. is_upper x"
    by (auto simp: plate_text_def)
  from rev_nonempty_class [OF this]
  obtain y lc' where r: "rev lc = y # lc'" and y: "is_upper y"
    by blast
  have "fst q = y # lc' @ rev sp @ rev ds @ rev la"
    using f r by simp
  then have "word_before q"
    using y by (simp add: word_before_def is_word_def)
  with we have na: "\<not> word_after q" by simp
  show ?thesis
  proof (cases "snd q")
    case Nil
    then show ?thesis .
  next
    case (Cons z zs)
    then have "z \<in> set p" using p by simp
    with assms(1) have "is_word z" by blast
    with Cons na show ?thesis by (simp add: word_after_def)
  qed
qed

lemma matchAll_word:
  assumes "p \<noteq> []" and "\<forall>c \<in> set p. is_word c" and "1 \<le> l1" and "1 \<le> l3"
  shows "matchAll (plate_rx l1 h1 l2 h2 l3 h3) p =
     (if rmatch (plate_rx l1 h1 l2 h2 l3 h3) ([], p) = [] then [] else [p])"
proof -
  from assms(1) obtain c cs where p: "p = c # cs" by (cases p) auto
  have inside: "scan (plate_rx l1 h1 l2 h2 l3 h3) k [c] cs = []" for k
    using assms(2,3) p by (intro scan_inside) auto
  show ?thesis
  proof (cases "rmatch (plate_rx l1 h1 l2 h2 l3 h3) ([], p)")
    case Nil
    then show ?thesis
      using inside p by (simp add: matchAll_def)
  next
    case (Cons q qs)
    then have "q \<in> set (rmatch (plate_rx l1 h1 l2 h2 l3 h3) ([], p))" by simp
    from match_to_end [OF assms(2,4) this] have "matched ([], p) q = p"
      by (simp add: matched_def)
    then show ?thesis
      using Cons inside p by (simp add: matchAll_def)
  qed
qed

lemma canonical_matches:
  assumes "canonical p"
  shows "rmatch re_cherished ([], p) \<noteq> []"
proof -
  from assms obtain la ds lc where p: "p = la @ ds @ lc"
    and pt: "plate_text 1 3 1 4 1 3 la ds [] lc"
    by (auto simp: canonical_def)
  from pt obtain x la' where la: "la = x # la'" and x: "is_upper x"
    by (cases la) (auto simp: plate_text_def)
  from pt have "1 \<le> length lc" "\<forall>x \<in> set lc. is_upper x"
    by (auto simp: plate_text_def)
  from rev_nonempty_class [OF this]
  obtain y lc' where r: "rev lc = y # lc'" and y: "is_upper y"
    by blast
  let ?q = "(rev (la @ ds @ [] @ lc) @ [], [])"
  have "word_before ([], p) \<noteq> word_after ([], p)"
    using p la x by (simp add: word_before_def word_after_def is_word_def)
  moreover have "word_before ?q \<noteq> word_after ?q"
    using r y by (simp add: word_before_def word_after_def is_word_def)
  ultimately have "?q \<in> set (rmatch (plate_rx 1 3 1 4 1 3) ([], p))"
    unfolding in_plate_rx using p pt
    by (intro exI [of _ la] exI [of _ ds] exI [of _ "[]"] exI [of _ lc]) simp
  then show ?thesis
    by (auto simp: re_cherished_plate_rx)
qed

lemma canonical_fixed:
  assumes "canonical p"
  shows "normalisePlate (Some p) = Some p"
proof -
  from assms have chars: "\<forall>c \<in> set p. plate_char c"
    by (auto simp: canonical_def)
  from assms have ne: "p \<noteq> []"
    by (auto simp: canonical_def plate_text_def)
  have word: "\<forall>c \<in> set p. is_word c"
    using chars plate_char_word by blast
  have cl: "clean p = p"
    by (rule clean_plate [OF chars])
  have st: "strip_ws p = p"
    using chars plate_char_not_space by (simp add: strip_ws_filter filter_id_conv)
  have cur: "matchAll re_current p = [] \<or> matchAll re_current p = [p]"
    using matchAll_word [OF ne word, of 2 3 2 2 2 3] by (simp add: re_current_plate_rx)
  have che: "matchAll re_cherished p = [p]"
    using matchAll_word [OF ne word, of 1 1 3 1 4 3] canonical_matches [OF assms]
    by (simp add: re_cherished_plate_rx)
  from cur show ?thesis
  proof
    assume "matchAll re_current p = []"
    then show ?thesis
      using ne cl st che by (simp add: normalisePlate_def UK_REGEXES_def)
  next
    assume "matchAll re_current p = [p]"
    then show ?thesis
      using ne cl st by (simp add: normalisePlate_def UK_REGEXES_def)
  qed
qed

text \<open>
  C6: whenever the normaliser returns a plate, that plate is a canonical one, and the
  normaliser returns it unchanged when it is given it as its text.
\<close>

theorem normalisePlate_idempotent:
  assumes "normalisePlate x = Some p"
  shows "canonical p \<and> normalisePlate (Some p) = Some p"
  using assms normalisePlate_canonical canonical_fixed by blast

theorem normalisePlate_idempotent_witness:
  "normalisePlate (Some ''gf12 abc parked'') = Some ''GF12ABC''
   \<and> normalisePlate (Some ''GF12ABC'') = Some ''GF12ABC''"
proof -
  have a: "normalisePlate (Some ''gf12 abc parked'') = Some ''GF12ABC''"
    by code_simp
  from normalisePlate_idempotent [OF a] a show ?thesis by blast
qed

section \<open>The choice among the matches\<close>












section \<open>Numbers\<close>

text \<open>
  A JavaScript number is \<open>NaN\<close>, an infinity or a finite value. Finite values are exact
  reals here: the rounding of the language's floating point is not part of the model.
\<close>

datatype jsnum = NaN | NegInf | Fin real | PosInf

definition truthy_num :: "jsnum \<Rightarrow> bool" where
  \<comment> \<open>a number is falsy when it is \<open>0\<close> or \<open>NaN\<close>\<close>
  "truthy_num n = (n \<noteq> NaN \<and> n \<noteq> Fin 0)"

definition or_default :: "jsnum option \<Rightarrow> jsnum \<Rightarrow> jsnum" where
  \<comment> \<open>\<open>x || d\<close> for \<open>x\<close> a number or \<open>undefined\<close> (\<open>None\<close>)\<close>
  "or_default x d = (case x of None \<Rightarrow> d | Some n \<Rightarrow> if truthy_num n then n else d)"

definition js_round :: "jsnum \<Rightarrow> jsnum" where
  \<comment> \<open>\<open>Math.round\<close>: to the nearest integer, halves upwards\<close>
  "js_round n = (case n of Fin x \<Rightarrow> Fin (of_int \<lfloor>x + 1 / 2\<rfloor>) | _ \<Rightarrow> n)"

definition js_le :: "jsnum \<Rightarrow> jsnum \<Rightarrow> bool" where
  \<comment> \<open>\<open>a <= b\<close>: false as soon as one side is \<open>NaN\<close>\<close>
  "js_le a b =
     (case (a, b) of
        (NaN, _) \<Rightarrow> False
      | (_, NaN) \<Rightarrow> False
      | (NegInf, _) \<Rightarrow> True
      | (_, PosInf) \<Rightarrow> True
      | (Fin x, Fin y) \<Rightarrow> x \<le> y
      | _ \<Rightarrow> False)"

definition js_ge :: "jsnum \<Rightarrow> jsnum \<Rightarrow> bool" where
  \<comment> \<open>\<open>a >= b\<close>\<close>
  "js_ge a b = js_le b a"

definition js_max :: "jsnum \<Rightarrow> jsnum \<Rightarrow> jsnum" where
  \<comment> \<open>\<open>Math.max(a, b)\<close>: \<open>NaN\<close> as soon as one argument is \<open>NaN\<close>\<close>
  "js_max a b = (if a = NaN \<or> b = NaN then NaN else if js_le a b then b else a)"

subsection \<open>\<open>Number(string)\<close>\<close>

text \<open>
  The conversion of a string to a number: white space is trimmed; the empty string is
  \<open>0\<close>; a decimal literal with optional sign, fraction and exponent, \<open>Infinity\<close> with
  optional sign, or an unsigned hexadecimal, octal or binary integer literal is its value;
  anything else is \<open>NaN\<close>.
\<close>

definition trim :: "string \<Rightarrow> string" where
  "trim s = rev (dropWhile is_space (rev (dropWhile is_space s)))"

definition digit_val :: "char \<Rightarrow> nat" where
  \<comment> \<open>the value of a digit in a base up to 16\<close>
  "digit_val c =
     (if is_digit c then code c - 48
      else if in_range CHR ''a'' CHR ''f'' c then code c - 87
      else if in_range CHR ''A'' CHR ''F'' c then code c - 55
      else 16)"

definition digits_val :: "nat \<Rightarrow> string \<Rightarrow> nat" where
  "digits_val base ds = foldl (\<lambda>acc c. acc * base + digit_val c) 0 ds"

definition based_int :: "nat \<Rightarrow> string \<Rightarrow> jsnum" where
  \<comment> \<open>the digits after \<open>0x\<close>, \<open>0o\<close> or \<open>0b\<close>: at least one, all below the base\<close>
  "based_int base ds =
     (if ds \<noteq> [] \<and> (\<forall>c \<in> set ds. digit_val c < base)
      then Fin (real (digits_val base ds)) else NaN)"

definition exponent :: "string \<Rightarrow> int option" where
  \<comment> \<open>the exponent part, without its \<open>e\<close>: an optional sign and at least one digit;
      the empty string stands for no exponent part\<close>
  "exponent s =
     (let neg = (s \<noteq> [] \<and> hd s = CHR ''-'');
          ds = (if s \<noteq> [] \<and> (hd s = CHR ''-'' \<or> hd s = CHR ''+'') then tl s else s)
      in if ds \<noteq> [] \<and> (\<forall>c \<in> set ds. is_digit c)
         then Some (if neg then - int (digits_val 10 ds) else int (digits_val 10 ds))
         else None)"

definition unsigned_decimal :: "string \<Rightarrow> real option" where
  \<comment> \<open>digits with an optional fraction, or a fraction alone, and an optional exponent\<close>
  "unsigned_decimal s =
     (let ip = takeWhile is_digit s;
          r1 = dropWhile is_digit s;
          dot = (r1 \<noteq> [] \<and> hd r1 = CHR ''.'');
          fp = (if dot then takeWhile is_digit (tl r1) else []);
          r2 = (if dot then dropWhile is_digit (tl r1) else r1);
          ex = (if r2 = [] then Some 0
                else if hd r2 = CHR ''e'' \<or> hd r2 = CHR ''E'' then exponent (tl r2)
                else None)
      in if ip = [] \<and> fp = [] then None
         else case ex of
           None \<Rightarrow> None
         | Some e \<Rightarrow>
             Some ((real (digits_val 10 ip) + real (digits_val 10 fp) / 10 ^ length fp)
                   * (if 0 \<le> e then 10 ^ nat e else 1 / 10 ^ nat (- e))))"

definition signed_decimal :: "string \<Rightarrow> jsnum" where
  "signed_decimal s =
     (let neg = (s \<noteq> [] \<and> hd s = CHR ''-'');
          u = (if s \<noteq> [] \<and> (hd s = CHR ''-'' \<or> hd s = CHR ''+'') then tl s else s)
      in if u = ''Infinity'' then (if neg then NegInf else PosInf)
         else case unsigned_decimal u of
           None \<Rightarrow> NaN
         | Some x \<Rightarrow> Fin (if neg then - x else x))"

definition Number :: "string \<Rightarrow> jsnum" where
  "Number v =
     (let s = trim v
      in if s = [] then Fin 0
         else if take 2 s = ''0x'' \<or> take 2 s = ''0X'' then based_int 16 (drop 2 s)
         else if take 2 s = ''0o'' \<or> take 2 s = ''0O'' then based_int 8 (drop 2 s)
         else if take 2 s = ''0b'' \<or> take 2 s = ''0B'' then based_int 2 (drop 2 s)
         else signed_decimal s)"

section \<open>The booking lookup\<close>

subsection \<open>The query string\<close>

text \<open>
  \<open>encodeURIComponent\<close> keeps letters, digits and \<open>- _ . ! ~ * ' ( )\<close>, and writes
  every other code unit as the percent escapes of its UTF-8 bytes: one byte below 128,
  two bytes from 128 to 255.
\<close>

definition hex_digit :: "nat \<Rightarrow> char" where
  "hex_digit n = (if n < 10 then char_of (48 + n) else char_of (55 + n))"

definition escape :: "nat \<Rightarrow> string" where
  "escape byte = [CHR ''%'', hex_digit (byte div 16), hex_digit (byte mod 16)]"

definition unreserved :: "char \<Rightarrow> bool" where
  "unreserved c = (is_upper c \<or> is_lower c \<or> is_digit c \<or> c \<in> set ''-_.!~*'' \<or> code c = 39
                   \<or> c \<in> set ''()'')"

definition encode_char :: "char \<Rightarrow> string" where
  "encode_char c =
     (if unreserved c then [c]
      else if code c < 128 then escape (code c)
      else escape (192 + code c div 64) @ escape (128 + code c mod 64))"

definition encodeURIComponent :: "string \<Rightarrow> string" where
  "encodeURIComponent s = concat (map encode_char s)"

text \<open>
  \<open>new URL(url, location.origin).searchParams.get(name)\<close> for a URL that is a path
  with a query, on a page that has an origin: the query runs from the first \<open>?\<close> to the
  first \<open>#\<close>, its parameters are separated by \<open>&\<close>, a name ends at the first \<open>=\<close>,
  \<open>+\<close> reads as a space, and percent escapes read as UTF-8 bytes. A byte sequence that
  is not the UTF-8 form of a code unit below 256 stands for a character outside the
  strings of this model and reads as the code unit 255 here; \<open>encodeURIComponent\<close> never
  writes one.
\<close>

definition is_hex :: "char \<Rightarrow> bool" where
  "is_hex c = (digit_val c < 16)"

fun percent_decode :: "string \<Rightarrow> string" where
  "percent_decode (p # h1 # h2 # cs) =
     (if p = CHR ''%'' \<and> is_hex h1 \<and> is_hex h2 then
        (let b = digit_val h1 * 16 + digit_val h2
         in if b < 128 then char_of b # percent_decode cs
            else case cs of
              q # h3 # h4 # cs' \<Rightarrow>
                (let b2 = digit_val h3 * 16 + digit_val h4
                 in if (b = 194 \<or> b = 195) \<and> q = CHR ''%'' \<and> is_hex h3 \<and> is_hex h4
                       \<and> 128 \<le> b2 \<and> b2 < 192
                    then char_of ((b - 192) * 64 + (b2 - 128)) # percent_decode cs'
                    else char_of (255::nat) # percent_decode cs)
            | _ \<Rightarrow> char_of (255::nat) # percent_decode cs)
      else (if p = CHR ''+'' then CHR '' '' else p) # percent_decode (h1 # h2 # cs))"
| "percent_decode cs = map (\<lambda>c. if c = CHR ''+'' then CHR '' '' else c) cs"

fun split_on :: "char \<Rightarrow> string \<Rightarrow> string list" where
  "split_on d [] = [[]]"
| "split_on d (c # cs) =
     (if c = d then [] # split_on d cs
      else case split_on d cs of
        [] \<Rightarrow> [[c]]
      | w # ws \<Rightarrow> (c # w) # ws)"

definition search_of :: "string \<Rightarrow> string" where
  \<comment> \<open>the query of a URL, without its \<open>?\<close> and without the fragment\<close>
  "search_of url =
     drop 1 (dropWhile (\<lambda>c. c \<noteq> CHR ''?'') (takeWhile (\<lambda>c. c \<noteq> CHR ''#'') url))"

definition searchParams :: "string \<Rightarrow> (string \<times> string) list" where
  "searchParams url =
     map (\<lambda>kv. (percent_decode (takeWhile (\<lambda>c. c \<noteq> CHR ''='') kv),
                 percent_decode (drop 1 (dropWhile (\<lambda>c. c \<noteq> CHR ''='') kv))))
       (filter (\<lambda>kv. kv \<noteq> []) (split_on CHR ''&'' (search_of url)))"

definition searchParams_get :: "string \<Rightarrow> string \<Rightarrow> string option" where
  \<comment> \<open>the value of the first parameter of that name, \<open>None\<close> for \<open>null\<close>\<close>
  "searchParams_get url name = map_of (searchParams url) name"

subsection \<open>Responses\<close>

text \<open>
  A booking as the service describes it. A field holds the text the page shows for it;
  the empty string stands for an absent or falsy field. The arrival is the instant its
  ISO-8601 string denotes, in milliseconds since the epoch, \<open>None\<close> when absent (an
  arrival that is not a date is not modelled).
\<close>

record booking =
  reg :: string
  status :: string
  customer :: string
  bookingId :: string
  product :: string
  terminal :: string
  arrival :: "int option"
  phone :: string

text \<open>
  What \<open>response.json()\<close> yields for a body: a failure for text that is not JSON, the
  value \<open>null\<close>, or any other value, whose properties are read as the fields of a
  booking.
\<close>

datatype body = NotJson | JsonNull | Json booking

record response =
  http_status :: nat
  content :: body

datatype fetch_result =
    Rejected              \<comment> \<open>the promise of \<open>fetch\<close> rejects: a transport failure\<close>
  | Responded response

definition ok :: "response \<Rightarrow> bool" where
  \<comment> \<open>\<open>response.ok\<close>: the status is in the range 200 to 299\<close>
  "ok r = (200 \<le> http_status r \<and> http_status r \<le> 299)"

text \<open>
  \<^verbatim>\<open>
  async mockFetch(url) {
      const urlObj = new URL(url, location.origin);
      const reg = (urlObj.searchParams.get('reg') || '').toUpperCase();
      const validRegs = ['AB12CDE', 'REZ123', 'STAR001', 'GF12ABC'];
      const found = validRegs.includes(reg);
      return new Response(found ? JSON.stringify({reg, status: 'due in', ...}) : 'not found',
          { status: found ? 200 : 404, headers: { 'Content-Type': 'application/json' } });
  }
  \<close>
  \<open>now\<close> is the value of \<open>Date.now()\<close>.
\<close>

definition validRegs :: "string list" where
  "validRegs = [''AB12CDE'', ''REZ123'', ''STAR001'', ''GF12ABC'']"

definition mockFetch :: "int \<Rightarrow> string \<Rightarrow> response" where
  "mockFetch now url =
     (let r = toUpperCase (case searchParams_get url ''reg'' of None \<Rightarrow> [] | Some v \<Rightarrow> v);
          found = (r \<in> set validRegs)
      in if found then
           \<lparr> http_status = 200,
             content = Json \<lparr> reg = r, status = ''due in'', customer = ''Test User'',
               bookingId = ''SP-TEST'', product = ''Meet and Greet'', terminal = ''T3'',
               arrival = Some (now + 3600000), phone = ''+44 7700 900123'' \<rparr> \<rparr>
         else \<lparr> http_status = 404, content = NotJson \<rparr>)"

subsection \<open>The booking box\<close>

datatype display =
    Untouched                 \<comment> \<open>the box as the page loaded it\<close>
  | BookingShown booking      \<comment> \<open>the card of \<open>renderBooking\<close>, with the fields it shows\<close>
  | NoBookingFound string     \<comment> \<open>the warning "No booking found for plate ..."\<close>

definition renderBooking :: "booking \<Rightarrow> display" where
  \<comment> \<open>every field as \<open>booking.x || ''\<close>, the status as \<open>booking.status || 'unknown'\<close>\<close>
  "renderBooking b =
     BookingShown (b\<lparr>status := (if status b = [] then ''unknown'' else status b)\<rparr>)"

section \<open>The plate scanner\<close>

subsection \<open>State\<close>

text \<open>
  The fields of \<open>PlateScanner\<close> that the scanning cycle reads and writes, the page
  elements it uses (each by the property the code uses: \<open>checked\<close>, \<open>value\<close>,
  \<open>textContent\<close>, \<open>disabled\<close>), and the part of the browser it acts on: the pending
  timeouts of \<open>setTimeout\<close>, the calls of \<open>worker.recognize\<close> and of \<open>fetch\<close> that
  have not completed yet, and the camera streams whose tracks were stopped. The page
  elements are taken to exist. A log line is kept without its time stamp; \<open>alert\<close> boxes
  are not modelled.
\<close>

datatype log_msg =
    EnvironmentWarning "string list"
  | CameraStarted
  | OcrReady
  | CameraDenied
  | NoCameraFound
  | CameraFailedWith string
  | CameraStopped
  | Detected string jsnum     \<comment> \<open>\<open>Detected ${plate} conf ${confidence}\<close>\<close>
  | NoPlateMatched
  | OcrError
  | UploadError string

record scanner =
  stream :: "nat option"            \<comment> \<open>\<open>this.stream\<close>: the handle of the camera stream\<close>
  timer :: "nat option"             \<comment> \<open>\<open>this.timer\<close>: the handle \<open>setTimeout\<close> returned\<close>
  worker :: "nat option"            \<comment> \<open>\<open>this.worker\<close>: the OCR worker\<close>
  video :: bool                     \<comment> \<open>\<open>this.video\<close> is an element\<close>
  videoSize :: "nat \<times> nat"          \<comment> \<open>\<open>video.videoWidth\<close>, \<open>video.videoHeight\<close>\<close>
  autoCapture :: bool               \<comment> \<open>\<open>autoCapture.checked\<close>\<close>
  intervalEl :: string              \<comment> \<open>\<open>intervalEl.value\<close>\<close>
  confidenceEl :: string            \<comment> \<open>\<open>confidenceEl.value\<close>\<close>
  mockToggle :: bool                \<comment> \<open>\<open>mockToggle.checked\<close>\<close>
  manualPlate :: string             \<comment> \<open>\<open>manualPlate.value\<close>\<close>
  lastPlateEl :: string             \<comment> \<open>\<open>lastPlateEl.textContent\<close>\<close>
  logEl :: "log_msg list"           \<comment> \<open>the lines of the log, newest first\<close>
  bookingBox :: display
  startBtn_disabled :: bool
  stopBtn_disabled :: bool
  frame :: "jsnum \<times> jsnum"          \<comment> \<open>\<open>frame.width\<close>, \<open>frame.height\<close>\<close>
  drawn :: nat                      \<comment> \<open>the frames drawn into the canvas so far\<close>
  timeouts :: "(nat \<times> jsnum) list"  \<comment> \<open>the pending timeouts: handle and delay\<close>
  next_timeout :: nat               \<comment> \<open>the handle the next \<open>setTimeout\<close> returns\<close>
  recognizing :: nat                \<comment> \<open>the calls of \<open>recognize\<close> of the camera cycle in flight\<close>
  requests :: "(string \<times> bool) list" \<comment> \<open>the lookups in flight: plate, and whether mocked\<close>
  released :: "nat list"            \<comment> \<open>the streams whose tracks were stopped\<close>

definition log :: "log_msg \<Rightarrow> scanner \<Rightarrow> scanner" where
  \<comment> \<open>\<open>this.logEl.prepend(div)\<close>\<close>
  "log msg s = s\<lparr>logEl := msg # logEl s\<rparr>"

definition setTimeout :: "jsnum \<Rightarrow> scanner \<Rightarrow> nat \<times> scanner" where
  "setTimeout delay s =
     (next_timeout s,
      s\<lparr>timeouts := timeouts s @ [(next_timeout s, delay)],
        next_timeout := Suc (next_timeout s)\<rparr>)"

definition clearTimeout :: "nat \<Rightarrow> scanner \<Rightarrow> scanner" where
  \<comment> \<open>a handle that is not pending is ignored\<close>
  "clearTimeout h s = s\<lparr>timeouts := filter (\<lambda>t. fst t \<noteq> h) (timeouts s)\<rparr>"

subsection \<open>The scheduler\<close>

text \<open>
  \<^verbatim>\<open>
  scheduleScan() {
      if (this.timer) clearTimeout(this.timer);
      const interval = Math.max(300, Number(this.intervalEl.value) || 1500);
      this.timer = setTimeout(() => this.captureAndRead(), interval);
  }
  \<close>
  A handle is truthy when it is not \<open>0\<close>.
\<close>

definition clear_timer :: "scanner \<Rightarrow> scanner" where
  \<comment> \<open>\<open>if (this.timer) clearTimeout(this.timer)\<close>\<close>
  "clear_timer s =
     (case timer s of
        None \<Rightarrow> s
      | Some h \<Rightarrow> if h \<noteq> 0 then clearTimeout h s else s)"

definition scheduleScan :: "scanner \<Rightarrow> scanner" where
  "scheduleScan s =
     (let s1 = clear_timer s;
          interval = js_max (Fin 300) (or_default (Some (Number (intervalEl s1))) (Fin 1500));
          (h, s2) = setTimeout interval s1
      in s2\<lparr>timer := Some h\<rparr>)"

text \<open>
  \<^verbatim>\<open>
  stopCamera() {
      if (this.timer) { clearTimeout(this.timer); this.timer = null; }
      if (this.stream) {
          this.stream.getTracks().forEach(track => track.stop());
          this.stream = null;
      }
      this.startBtn.disabled = false;
      this.stopBtn.disabled = true;
      this.log('Camera stopped');
  }
  \<close>
\<close>

definition drop_timer :: "scanner \<Rightarrow> scanner" where
  \<comment> \<open>\<open>if (this.timer) { clearTimeout(this.timer); this.timer = null; }\<close>\<close>
  "drop_timer s =
     (case timer s of
        None \<Rightarrow> s
      | Some h \<Rightarrow> if h \<noteq> 0 then (clearTimeout h s)\<lparr>timer := None\<rparr> else s)"

definition stopCamera :: "scanner \<Rightarrow> scanner" where
  "stopCamera s =
     (let s1 = drop_timer s;
          s2 = (case stream s1 of
                  None \<Rightarrow> s1
                | Some h \<Rightarrow> s1\<lparr>released := h # released s1, stream := None\<rparr>)
      in log CameraStopped (s2\<lparr>startBtn_disabled := False, stopBtn_disabled := True\<rparr>))"

subsection \<open>The lookup\<close>

text \<open>
  \<^verbatim>\<open>
  async lookupByReg(reg) {
      try {
          const url = `/api/bookings?reg=${encodeURIComponent(reg)}`;
          const response = this.mockToggle.checked ? await this.mockFetch(url) : await fetch(url);
          if (!response.ok) { throw new Error('No match'); }
          const data = await response.json();
          this.renderBooking(data);
      } catch (error) {
          this.bookingBox.innerHTML = `... No booking found ... for plate ${reg} ...`;
      }
  }
  \<close>
  The call runs up to its first \<open>await\<close> (\<open>lookupByReg_call\<close>: the request is in
  flight), and resumes with what the awaited promise gives (\<open>lookupByReg_resume\<close>).
  \<open>renderBooking\<close> reads \<open>booking.arrival\<close> first, which throws for \<open>null\<close>.
  \<open>lookupByReg\<close> is the whole function, for a network that answers the URL with
  \<open>net url\<close>.
\<close>

definition lookup_url :: "string \<Rightarrow> string" where
  "lookup_url r = ''/api/bookings?reg='' @ encodeURIComponent r"

definition lookupByReg_call :: "scanner \<Rightarrow> string \<Rightarrow> scanner" where
  "lookupByReg_call s r = s\<lparr>requests := requests s @ [(r, mockToggle s)]\<rparr>"

definition lookup_outcome :: "string \<Rightarrow> fetch_result \<Rightarrow> display" where
  "lookup_outcome r res =
     (case res of
        Rejected \<Rightarrow> NoBookingFound r
      | Responded resp \<Rightarrow>
          if \<not> ok resp then NoBookingFound r
          else (case content resp of
                  NotJson \<Rightarrow> NoBookingFound r
                | JsonNull \<Rightarrow> NoBookingFound r
                | Json b \<Rightarrow> renderBooking b))"

definition lookupByReg_resume :: "scanner \<Rightarrow> string \<times> bool \<Rightarrow> fetch_result \<Rightarrow> scanner" where
  "lookupByReg_resume s q res =
     s\<lparr>requests := remove1 q (requests s), bookingBox := lookup_outcome (fst q) res\<rparr>"

definition fetched :: "(string \<Rightarrow> fetch_result) \<Rightarrow> int \<Rightarrow> string \<times> bool \<Rightarrow> fetch_result" where
  \<comment> \<open>\<open>this.mockToggle.checked ? await this.mockFetch(url) : await fetch(url)\<close>\<close>
  "fetched net now q =
     (if snd q then Responded (mockFetch now (lookup_url (fst q))) else net (lookup_url (fst q)))"

definition lookupByReg :: "(string \<Rightarrow> fetch_result) \<Rightarrow> int \<Rightarrow> scanner \<Rightarrow> string \<Rightarrow> scanner" where
  "lookupByReg net now s r =
     lookupByReg_resume (lookupByReg_call s r) (r, mockToggle s) (fetched net now (r, mockToggle s))"

subsection \<open>One scan\<close>

definition is_line_end :: "char \<Rightarrow> bool" where
  \<comment> \<open>the line terminators below 256, which \<open>.\<close> does not match\<close>
  "is_line_end c = (code c = 10 \<or> code c = 13)"

fun format_plate :: "string \<Rightarrow> string" where
  \<comment> \<open>\<open>plate.replace(/(.{2})(.{2})(.{3})/, '$1$2 $3')\<close>: a space after the fourth
      character of the first run of seven characters on one line\<close>
  "format_plate [] = []"
| "format_plate (c # cs) =
     (if 7 \<le> length (c # cs) \<and> (\<forall>x \<in> set (take 7 (c # cs)). \<not> is_line_end x)
      then take 4 (c # cs) @ '' '' @ drop 4 (c # cs)
      else c # format_plate cs)"

record ocr_data =
  ocr_text :: "string option"       \<comment> \<open>\<open>data.text\<close>\<close>
  ocr_confidence :: "jsnum option"  \<comment> \<open>\<open>data.confidence\<close>, \<open>None\<close> when missing\<close>

datatype ocr_outcome = Recognized ocr_data | RecognizeFailed

text \<open>
  \<^verbatim>\<open>
  handleOCRResult(data) {
      const plate = this.normalisePlate(data.text);
      if (plate) {
          this.lastPlateEl.textContent = plate.replace(/(.{2})(.{2})(.{3})/, '$1$2 $3');
          const confidence = Math.round(data.confidence || 55);
          this.log(`Detected ${plate} conf ${confidence}`);
          const threshold = Number(this.confidenceEl.value) || 45;
          if (confidence >= threshold) { this.lookupByReg(plate); }
      } else {
          this.log('No plate matched');
      }
  }
  \<close>
\<close>

definition effective_confidence :: "ocr_data \<Rightarrow> jsnum" where
  \<comment> \<open>\<open>Math.round(data.confidence || 55)\<close>\<close>
  "effective_confidence d = js_round (or_default (ocr_confidence d) (Fin 55))"

definition effective_threshold :: "string \<Rightarrow> jsnum" where
  \<comment> \<open>\<open>Number(this.confidenceEl.value) || 45\<close>\<close>
  "effective_threshold v = or_default (Some (Number v)) (Fin 45)"

definition handleOCRResult :: "scanner \<Rightarrow> ocr_data \<Rightarrow> scanner" where
  "handleOCRResult s d =
     (case normalisePlate (ocr_text d) of
        None \<Rightarrow> log NoPlateMatched s
      | Some plate \<Rightarrow>
          if plate = [] then log NoPlateMatched s
          else
            (let s1 = s\<lparr>lastPlateEl := format_plate plate\<rparr>;
                 s2 = log (Detected plate (effective_confidence d)) s1
             in if js_ge (effective_confidence d) (effective_threshold (confidenceEl s2))
                then lookupByReg_call s2 plate
                else s2))"

text \<open>
  \<^verbatim>\<open>
  async captureAndRead() {
      if (!this.stream || !this.worker || !this.video) return;
      const width = 640;
      const ratio = this.video.videoHeight
          ? (this.video.videoWidth / this.video.videoHeight) : (16 / 9);
      const height = Math.round(width / ratio);
      this.frame.width = width;
      this.frame.height = height;
      const ctx = this.frame.getContext('2d');
      ctx.drawImage(this.video, 0, 0, width, height);
      try {
          const { data } = await this.worker.recognize(this.frame);
          this.handleOCRResult(data);
      } catch (error) {
          console.error(error);
          this.log('OCR error');
      } finally {
          if (this.autoCapture.checked) { this.scheduleScan(); }
      }
  }
  \<close>
  \<open>captureAndRead\<close> is the call up to its \<open>await\<close>; \<open>captureAndRead_resume\<close> is the
  rest, run when the recognition has completed or failed. The height of the frame is
  computed on exact reals, where the code divides in floating point before it rounds.
\<close>

definition frame_height :: "nat \<times> nat \<Rightarrow> jsnum" where
  "frame_height wh =
     (if snd wh \<noteq> 0 then
        (if fst wh = 0 then PosInf
         else js_round (Fin (640 / (real (fst wh) / real (snd wh)))))
      else js_round (Fin (640 / (16 / 9))))"

definition captureAndRead :: "scanner \<Rightarrow> scanner" where
  "captureAndRead s =
     (if stream s = None \<or> worker s = None \<or> \<not> video s then s
      else s\<lparr>frame := (Fin 640, frame_height (videoSize s)),
             drawn := Suc (drawn s),
             recognizing := Suc (recognizing s)\<rparr>)"

definition captureAndRead_resume :: "scanner \<Rightarrow> ocr_outcome \<Rightarrow> scanner" where
  "captureAndRead_resume s out =
     (let s0 = s\<lparr>recognizing := recognizing s - 1\<rparr>;
          s1 = (case out of
                  Recognized d \<Rightarrow> handleOCRResult s0 d
                | RecognizeFailed \<Rightarrow> log OcrError s0)
      in if autoCapture s1 then scheduleScan s1 else s1)"

definition timer_fires :: "nat \<Rightarrow> scanner \<Rightarrow> scanner" where
  \<comment> \<open>a pending timeout fires: it leaves the pending ones and its callback
      \<open>() => this.captureAndRead()\<close> runs\<close>
  "timer_fires h s =
     (if h \<in> fst ` set (timeouts s)
      then captureAndRead (s\<lparr>timeouts := filter (\<lambda>t. fst t \<noteq> h) (timeouts s)\<rparr>)
      else s)"

subsection \<open>Events\<close>

text \<open>
  What happens to a scanner, one event at a time: the clicks and changes that
  \<open>initializeEventListeners\<close> listens to, a timeout that fires, and the completion of
  each awaited call. \<open>startCamera\<close> is cut at each \<open>await\<close> whose completion changes a
  field of the state: the stream is acquired, the video plays, the worker is created, the
  worker is ready, or the start fails. An event that completes a call applies whenever it
  occurs, except that a timeout fires only while it is pending, a recognition completes
  only while one is in flight, and a lookup completes only while it is in flight; the
  runs of the page are among the runs of this model.
\<close>

datatype camera_error = NotAllowedError | NotFoundError | OtherError string

datatype event =
    StartCalled "string list"    \<comment> \<open>\<open>startCamera\<close> is called; the issues of \<open>showEnvWarnings\<close>\<close>
  | CameraAcquired nat           \<comment> \<open>\<open>this.stream = await getUserMedia(constraints)\<close>\<close>
  | VideoPlaying                 \<comment> \<open>\<open>await this.video.play()\<close> is done\<close>
  | WorkerCreated nat            \<comment> \<open>\<open>this.worker = await Tesseract.createWorker(...)\<close>\<close>
  | WorkerReady                  \<comment> \<open>\<open>await this.worker.initialize('eng')\<close> is done, in \<open>startCamera\<close>\<close>
  | CameraFailed camera_error    \<comment> \<open>the \<open>catch\<close> of \<open>startCamera\<close>\<close>
  | StopClicked
  | CameraSelected               \<comment> \<open>\<open>change\<close> on the camera list\<close>
  | IntervalChanged string
  | AutoCaptureChanged bool
  | ConfidenceChanged string
  | MockToggled bool
  | ManualTyped string
  | LookupClicked
  | TimerFired nat
  | OcrFinished ocr_outcome      \<comment> \<open>\<open>await this.worker.recognize(this.frame)\<close> is done\<close>
  | UploadRecognized ocr_data    \<comment> \<open>an uploaded image was recognised\<close>
  | UploadFailed string
  | LookupFinished "string \<times> bool" fetch_result int
                                 \<comment> \<open>a lookup in flight gets its answer; \<open>Date.now()\<close>\<close>

definition rearm :: "scanner \<Rightarrow> scanner" where
  \<comment> \<open>\<open>if (this.autoCapture.checked) { this.scheduleScan(); }\<close>\<close>
  "rearm s = (if autoCapture s then scheduleScan s else s)"

definition manual_lookup :: "scanner \<Rightarrow> scanner" where
  \<comment> \<open>the click on the lookup button:
      \<open>val = manualPlate.value.trim().toUpperCase().replace(/\s/g, '')\<close>\<close>
  "manual_lookup s =
     (let val = strip_ws (toUpperCase (trim (manualPlate s)))
      in if val = [] then s
         else lookupByReg_call (s\<lparr>lastPlateEl := format_plate val\<rparr>) val)"

fun step :: "event \<Rightarrow> scanner \<Rightarrow> scanner" where
  "step (StartCalled issues) s =
     (if issues \<noteq> [] then log (EnvironmentWarning issues) s else s)"
| "step (CameraAcquired h) s = s\<lparr>stream := Some h\<rparr>"
| "step VideoPlaying s =
     (let s1 = log CameraStarted (s\<lparr>startBtn_disabled := True, stopBtn_disabled := False\<rparr>)
      in if worker s1 = None then s1 else rearm s1)"
| "step (WorkerCreated w) s = s\<lparr>worker := Some w\<rparr>"
| "step WorkerReady s = rearm (log OcrReady s)"
| "step (CameraFailed e) s =
     (case e of
        NotAllowedError \<Rightarrow> log CameraDenied s
      | NotFoundError \<Rightarrow> log NoCameraFound s
      | OtherError m \<Rightarrow> log (CameraFailedWith m) s)"
| "step StopClicked s = stopCamera s"
| "step CameraSelected s = (if stream s \<noteq> None then stopCamera s else s)"
| "step (IntervalChanged v) s =
     (let s1 = s\<lparr>intervalEl := v\<rparr>
      in case timer s1 of
           None \<Rightarrow> s1
         | Some h \<Rightarrow> if h \<noteq> 0 then scheduleScan s1 else s1)"
| "step (AutoCaptureChanged b) s =
     (let s1 = s\<lparr>autoCapture := b\<rparr>
      in if b then scheduleScan s1 else drop_timer s1)"
| "step (ConfidenceChanged v) s = s\<lparr>confidenceEl := v\<rparr>"
| "step (MockToggled b) s = s\<lparr>mockToggle := b\<rparr>"
| "step (ManualTyped v) s = s\<lparr>manualPlate := v\<rparr>"
| "step LookupClicked s = manual_lookup s"
| "step (TimerFired h) s = timer_fires h s"
| "step (OcrFinished out) s =
     (if recognizing s = 0 then s else captureAndRead_resume s out)"
| "step (UploadRecognized d) s = handleOCRResult s d"
| "step (UploadFailed m) s = log (UploadError m) s"
| "step (LookupFinished q res now) s =
     (if q \<in> set (requests s)
      then lookupByReg_resume s q (fetched (\<lambda>_. res) now q)
      else s)"

definition run :: "event list \<Rightarrow> scanner \<Rightarrow> scanner" where
  \<comment> \<open>the events in the order they occur\<close>
  "run es s = foldl (\<lambda>s e. step e s) s es"

definition fresh :: "scanner \<Rightarrow> bool" where
  \<comment> \<open>a scanner as the constructor leaves it (\<open>stream\<close>, \<open>timer\<close> and \<open>worker\<close> are
      \<open>null\<close>), with nothing pending; handles of timeouts are positive\<close>
  "fresh s =
     (stream s = None \<and> timer s = None \<and> worker s = None \<and> timeouts s = []
      \<and> 0 < next_timeout s \<and> recognizing s = 0 \<and> requests s = [])"

definition page :: scanner where
  \<comment> \<open>an example of a fresh scanner: auto-capture on, the mock lookup on, an interval of
      1500 ms and a threshold of 45\<close>
  "page =
     \<lparr> stream = None, timer = None, worker = None, video = True, videoSize = (1280, 720),
       autoCapture = True, intervalEl = ''1500'', confidenceEl = ''45'', mockToggle = True,
       manualPlate = [], lastPlateEl = [], logEl = [], bookingBox = Untouched,
       startBtn_disabled = False, stopBtn_disabled = True, frame = (Fin 300, Fin 150),
       drawn = 0, timeouts = [], next_timeout = 1, recognizing = 0, requests = [],
       released = [] \<rparr>"

definition scanning :: scanner where
  \<comment> \<open>the example after the camera was started: the first scan is scheduled\<close>
  "scanning =
     run [StartCalled [], CameraAcquired 7, VideoPlaying, WorkerCreated 3, WorkerReady] page"

section \<open>Properties of the lookup\<close>

lemma reg_of_AB12CDE: "searchParams_get (lookup_url ''AB12CDE'') ''reg'' = Some ''AB12CDE''"
  by code_simp

lemma reg_of_ZZ99ZZZ: "searchParams_get (lookup_url ''ZZ99ZZZ'') ''reg'' = Some ''ZZ99ZZZ''"
  by code_simp

lemma upper_AB12CDE: "toUpperCase ''AB12CDE'' = ''AB12CDE''"
  by code_simp

lemma upper_ZZ99ZZZ: "toUpperCase ''ZZ99ZZZ'' = ''ZZ99ZZZ''"
  by code_simp

lemma mockFetch_AB12CDE:
  "mockFetch now (lookup_url ''AB12CDE'') =
     \<lparr> http_status = 200,
       content = Json \<lparr> reg = ''AB12CDE'', status = ''due in'', customer = ''Test User'',
         bookingId = ''SP-TEST'', product = ''Meet and Greet'', terminal = ''T3'',
         arrival = Some (now + 3600000), phone = ''+44 7700 900123'' \<rparr> \<rparr>"
  by (simp add: mockFetch_def reg_of_AB12CDE upper_AB12CDE validRegs_def)

lemma mockFetch_ZZ99ZZZ:
  "mockFetch now (lookup_url ''ZZ99ZZZ'') = \<lparr> http_status = 404, content = NotJson \<rparr>"
  by (simp add: mockFetch_def reg_of_ZZ99ZZZ upper_ZZ99ZZZ validRegs_def)

lemma bookingBox_lookupByReg:
  "bookingBox (lookupByReg net now s r) = lookup_outcome r (fetched net now (r, mockToggle s))"
  by (simp add: lookupByReg_def lookupByReg_resume_def)

text \<open>
  C8: with the mock lookup switched on, the plate \<open>AB12CDE\<close> is answered with status
  200 and a booking whose \<open>reg\<close> is \<open>AB12CDE\<close>, which the booking box shows; the plate
  \<open>ZZ99ZZZ\<close> is answered with status 404, and the booking box shows "No booking found"
  for it.
\<close>

theorem mock_lookup_AB12CDE_ZZ99ZZZ:
  assumes "mockToggle s"
  shows "http_status (mockFetch now (lookup_url ''AB12CDE'')) = 200
    \<and> (\<exists>b. content (mockFetch now (lookup_url ''AB12CDE'')) = Json b \<and> reg b = ''AB12CDE''
          \<and> bookingBox (lookupByReg net now s ''AB12CDE'') = BookingShown b)
    \<and> http_status (mockFetch now (lookup_url ''ZZ99ZZZ'')) = 404
    \<and> bookingBox (lookupByReg net now s ''ZZ99ZZZ'') = NoBookingFound ''ZZ99ZZZ''"
  using assms
  by (simp add: bookingBox_lookupByReg fetched_def mockFetch_AB12CDE mockFetch_ZZ99ZZZ
      lookup_outcome_def ok_def renderBooking_def)

theorem mock_lookup_AB12CDE_ZZ99ZZZ_witness:
  "mockToggle page
   \<and> (\<exists>b. reg b = ''AB12CDE''
          \<and> bookingBox (lookupByReg (\<lambda>_. Rejected) 0 page ''AB12CDE'') = BookingShown b)
   \<and> bookingBox (lookupByReg (\<lambda>_. Rejected) 0 page ''ZZ99ZZZ'') = NoBookingFound ''ZZ99ZZZ''"
proof -
  have m: "mockToggle page" by (simp add: page_def)
  from mock_lookup_AB12CDE_ZZ99ZZZ [OF m, of 0 "\<lambda>_. Rejected"] m
  show ?thesis by blast
qed

text \<open>
  C5: whatever the plate, a lookup whose fetch is rejected (a transport failure) and a
  lookup that is answered with a status outside 200 to 299 both end with the booking box
  showing "No booking found" for the plate, and leave the same state; the booking box
  shows a booking only after an answer with a status from 200 to 299.
\<close>

theorem lookup_failures_show_no_booking:
  "(fetched net now (r, mockToggle s) = Rejected \<longrightarrow>
      bookingBox (lookupByReg net now s r) = NoBookingFound r)
   \<and> (\<forall>resp. fetched net now (r, mockToggle s) = Responded resp \<and> \<not> ok resp \<longrightarrow>
      bookingBox (lookupByReg net now s r) = NoBookingFound r)
   \<and> (\<forall>net' resp. fetched net now (r, mockToggle s) = Rejected
          \<and> fetched net' now (r, mockToggle s) = Responded resp \<and> \<not> ok resp \<longrightarrow>
      lookupByReg net now s r = lookupByReg net' now s r)
   \<and> (\<forall>b. bookingBox (lookupByReg net now s r) = BookingShown b \<longrightarrow>
      (\<exists>resp. fetched net now (r, mockToggle s) = Responded resp \<and> ok resp))"
proof -
  have a: "fetched net now (r, mockToggle s) = Rejected \<longrightarrow>
      bookingBox (lookupByReg net now s r) = NoBookingFound r"
    by (simp add: bookingBox_lookupByReg lookup_outcome_def)
  have b: "\<forall>resp. fetched net now (r, mockToggle s) = Responded resp \<and> \<not> ok resp \<longrightarrow>
      bookingBox (lookupByReg net now s r) = NoBookingFound r"
    by (simp add: bookingBox_lookupByReg lookup_outcome_def)
  have c: "\<forall>net' resp. fetched net now (r, mockToggle s) = Rejected
          \<and> fetched net' now (r, mockToggle s) = Responded resp \<and> \<not> ok resp \<longrightarrow>
      lookupByReg net now s r = lookupByReg net' now s r"
    by (simp add: lookupByReg_def lookupByReg_resume_def lookup_outcome_def)
  have d: "\<forall>b. bookingBox (lookupByReg net now s r) = BookingShown b \<longrightarrow>
      (\<exists>resp. fetched net now (r, mockToggle s) = Responded resp \<and> ok resp)"
    by (auto simp: bookingBox_lookupByReg lookup_outcome_def
        split: fetch_result.splits body.splits if_splits)
  from a b c d show ?thesis by blast
qed

theorem lookup_failures_show_no_booking_witness:
  "fetched (\<lambda>_. Rejected) 0 (''AB12CDE'', mockToggle (page\<lparr>mockToggle := False\<rparr>)) = Rejected
   \<and> bookingBox (lookupByReg (\<lambda>_. Rejected) 0 (page\<lparr>mockToggle := False\<rparr>) ''AB12CDE'')
       = NoBookingFound ''AB12CDE''
   \<and> \<not> ok \<lparr>http_status = 503, content = NotJson\<rparr>
   \<and> bookingBox (lookupByReg (\<lambda>_. Responded \<lparr>http_status = 503, content = NotJson\<rparr>) 0
         (page\<lparr>mockToggle := False\<rparr>) ''AB12CDE'') = NoBookingFound ''AB12CDE''
   \<and> lookupByReg (\<lambda>_. Rejected) 0 (page\<lparr>mockToggle := False\<rparr>) ''AB12CDE''
       = lookupByReg (\<lambda>_. Responded \<lparr>http_status = 503, content = NotJson\<rparr>) 0
           (page\<lparr>mockToggle := False\<rparr>) ''AB12CDE''"
proof -
  let ?s = "page\<lparr>mockToggle := False\<rparr>"
  let ?down = "\<lparr>http_status = 503, content = NotJson\<rparr>"
  have f1: "fetched (\<lambda>_. Rejected) 0 (''AB12CDE'', mockToggle ?s) = Rejected"
    by (simp add: fetched_def)
  have f2: "fetched (\<lambda>_. Responded ?down) 0 (''AB12CDE'', mockToggle ?s) = Responded ?down"
    by (simp add: fetched_def)
  have nok: "\<not> ok ?down" by (simp add: ok_def)
  from lookup_failures_show_no_booking [of "\<lambda>_. Rejected" 0 "''AB12CDE''" ?s] f1
  have g1: "bookingBox (lookupByReg (\<lambda>_. Rejected) 0 ?s ''AB12CDE'') = NoBookingFound ''AB12CDE''"
    by blast
  from lookup_failures_show_no_booking [of "\<lambda>_. Responded ?down" 0 "''AB12CDE''" ?s] f2 nok
  have g2: "bookingBox (lookupByReg (\<lambda>_. Responded ?down) 0 ?s ''AB12CDE'')
      = NoBookingFound ''AB12CDE''"
    by blast
  from lookup_failures_show_no_booking [of "\<lambda>_. Rejected" 0 "''AB12CDE''" ?s] f1 f2 nok
  have g3: "lookupByReg (\<lambda>_. Rejected) 0 ?s ''AB12CDE''
      = lookupByReg (\<lambda>_. Responded ?down) 0 ?s ''AB12CDE''"
    by blast
  from f1 g1 nok g2 g3 show ?thesis by blast
qed

section \<open>Properties of one scan\<close>

lemma Number_empty: "Number [] = Fin 0"
  by (simp add: Number_def trim_def)

lemma Number_0: "Number ''0'' = Fin 0"
  by (simp add: Number_def trim_def signed_decimal_def unsigned_decimal_def digits_val_def
      digit_val_def is_digit_def in_range_def code_def is_space_def Let_def)

lemma Number_abc: "Number ''abc'' = NaN"
  by (simp add: Number_def trim_def signed_decimal_def unsigned_decimal_def digits_val_def
      digit_val_def is_digit_def in_range_def code_def is_space_def Let_def)

lemma js_round_55: "js_round (Fin 55) = Fin 55"
proof -
  have "\<lfloor>(55::real) + 1 / 2\<rfloor> = 55" by linarith
  then show ?thesis by (simp add: js_round_def)
qed

lemma effective_threshold_not_0: "effective_threshold v \<noteq> Fin 0"
  by (simp add: effective_threshold_def or_default_def truthy_num_def)

text \<open>
  C9: a confidence that is missing or \<open>0\<close> becomes 55 before rounding, and the rounded
  value is 55; a threshold input that is empty, not a number (as \<open>abc\<close>) or \<open>0\<close> becomes
  45, so that no input gives the threshold \<open>0\<close>; and a plate detected with confidence
  \<open>0\<close> under the threshold 45 is looked up: the call of \<open>lookupByReg\<close> for the plate
  joins the lookups in flight, after the plate was shown and logged with confidence 55.
  A plate whose confidence is below the threshold adds no lookup.
\<close>

theorem confidence_threshold_defaults:
  "(ocr_confidence d = None \<or> ocr_confidence d = Some (Fin 0) \<longrightarrow>
      or_default (ocr_confidence d) (Fin 55) = Fin 55 \<and> effective_confidence d = Fin 55)
   \<and> (Number v = Fin 0 \<or> Number v = NaN \<longrightarrow> effective_threshold v = Fin 45)
   \<and> Number [] = Fin 0 \<and> Number ''abc'' = NaN \<and> Number ''0'' = Fin 0
   \<and> effective_threshold v \<noteq> Fin 0
   \<and> (\<forall>plate. normalisePlate (ocr_text d) = Some plate \<and> ocr_confidence d = Some (Fin 0)
         \<and> effective_threshold (confidenceEl s) = Fin 45 \<longrightarrow>
       handleOCRResult s d
         = lookupByReg_call (log (Detected plate (Fin 55)) (s\<lparr>lastPlateEl := format_plate plate\<rparr>))
             plate
       \<and> requests (handleOCRResult s d) = requests s @ [(plate, mockToggle s)]
       \<and> logEl (handleOCRResult s d) = Detected plate (Fin 55) # logEl s
       \<and> lastPlateEl (handleOCRResult s d) = format_plate plate)
   \<and> (\<forall>plate. normalisePlate (ocr_text d) = Some plate
         \<and> \<not> js_ge (effective_confidence d) (effective_threshold (confidenceEl s)) \<longrightarrow>
       requests (handleOCRResult s d) = requests s)"
proof -
  have a: "ocr_confidence d = None \<or> ocr_confidence d = Some (Fin 0) \<longrightarrow>
      or_default (ocr_confidence d) (Fin 55) = Fin 55 \<and> effective_confidence d = Fin 55"
    by (auto simp: effective_confidence_def or_default_def truthy_num_def js_round_55)
  have b: "Number v = Fin 0 \<or> Number v = NaN \<longrightarrow> effective_threshold v = Fin 45"
    by (auto simp: effective_threshold_def or_default_def truthy_num_def)
  have c: "\<forall>plate. normalisePlate (ocr_text d) = Some plate \<and> ocr_confidence d = Some (Fin 0)
         \<and> effective_threshold (confidenceEl s) = Fin 45 \<longrightarrow>
       handleOCRResult s d
         = lookupByReg_call (log (Detected plate (Fin 55)) (s\<lparr>lastPlateEl := format_plate plate\<rparr>))
             plate
       \<and> requests (handleOCRResult s d) = requests s @ [(plate, mockToggle s)]
       \<and> logEl (handleOCRResult s d) = Detected plate (Fin 55) # logEl s
       \<and> lastPlateEl (handleOCRResult s d) = format_plate plate"
  proof (intro allI impI, elim conjE)
    fix plate
    assume p: "normalisePlate (ocr_text d) = Some plate"
      and c0: "ocr_confidence d = Some (Fin 0)"
      and th: "effective_threshold (confidenceEl s) = Fin 45"
    have ne: "plate \<noteq> []"
      using p normalisePlate_nonempty by blast
    have ec: "effective_confidence d = Fin 55"
      using a c0 by blast
    have h: "handleOCRResult s d
         = lookupByReg_call (log (Detected plate (Fin 55)) (s\<lparr>lastPlateEl := format_plate plate\<rparr>))
             plate"
      using p ne ec th
      by (simp add: handleOCRResult_def log_def js_ge_def js_le_def)
    have "requests (handleOCRResult s d) = requests s @ [(plate, mockToggle s)]"
      and "logEl (handleOCRResult s d) = Detected plate (Fin 55) # logEl s"
      and "lastPlateEl (handleOCRResult s d) = format_plate plate"
      unfolding h by (simp_all add: lookupByReg_call_def log_def)
    with h show "handleOCRResult s d
         = lookupByReg_call (log (Detected plate (Fin 55)) (s\<lparr>lastPlateEl := format_plate plate\<rparr>))
             plate
       \<and> requests (handleOCRResult s d) = requests s @ [(plate, mockToggle s)]
       \<and> logEl (handleOCRResult s d) = Detected plate (Fin 55) # logEl s
       \<and> lastPlateEl (handleOCRResult s d) = format_plate plate"
      by blast
  qed
  have e: "\<forall>plate. normalisePlate (ocr_text d) = Some plate
         \<and> \<not> js_ge (effective_confidence d) (effective_threshold (confidenceEl s)) \<longrightarrow>
       requests (handleOCRResult s d) = requests s"
  proof (intro allI impI, elim conjE)
    fix plate
    assume p: "normalisePlate (ocr_text d) = Some plate"
      and lo: "\<not> js_ge (effective_confidence d) (effective_threshold (confidenceEl s))"
    have ne: "plate \<noteq> []"
      using p normalisePlate_nonempty by blast
    show "requests (handleOCRResult s d) = requests s"
      using p ne lo by (simp add: handleOCRResult_def log_def)
  qed
  from a b c e Number_empty Number_abc Number_0 effective_threshold_not_0 [of v]
  show ?thesis by blast
qed

lemma normalise_AB12_CDE: "normalisePlate (Some ''AB12 CDE'') = Some ''AB12CDE''"
  by code_simp

lemma format_AB12CDE: "format_plate ''AB12CDE'' = ''AB12 CDE''"
  by (simp add: is_line_end_def code_def)

lemma booking_after_mock_lookup:
  assumes "(''AB12CDE'', True) \<in> set (requests s)"
  shows "\<exists>b. reg b = ''AB12CDE''
    \<and> bookingBox (step (LookupFinished (''AB12CDE'', True) res now) s) = BookingShown b"
  using assms
  by (simp add: lookupByReg_resume_def fetched_def mockFetch_AB12CDE lookup_outcome_def ok_def
      renderBooking_def)

theorem confidence_threshold_defaults_witness:
  "effective_confidence \<lparr>ocr_text = Some ''AB12 CDE'', ocr_confidence = Some (Fin 0)\<rparr> = Fin 55
   \<and> effective_threshold [] = Fin 45
   \<and> requests (page\<lparr>confidenceEl := []\<rparr>) = []
   \<and> requests (handleOCRResult (page\<lparr>confidenceEl := []\<rparr>)
        \<lparr>ocr_text = Some ''AB12 CDE'', ocr_confidence = Some (Fin 0)\<rparr>)
      = [(''AB12CDE'', True)]
   \<and> logEl (handleOCRResult (page\<lparr>confidenceEl := []\<rparr>)
        \<lparr>ocr_text = Some ''AB12 CDE'', ocr_confidence = Some (Fin 0)\<rparr>)
      = [Detected ''AB12CDE'' (Fin 55)]
   \<and> lastPlateEl (handleOCRResult (page\<lparr>confidenceEl := []\<rparr>)
        \<lparr>ocr_text = Some ''AB12 CDE'', ocr_confidence = Some (Fin 0)\<rparr>)
      = ''AB12 CDE''
   \<and> (\<exists>b. reg b = ''AB12CDE''
        \<and> bookingBox (step (LookupFinished (''AB12CDE'', True) Rejected 0)
             (handleOCRResult (page\<lparr>confidenceEl := []\<rparr>)
                \<lparr>ocr_text = Some ''AB12 CDE'', ocr_confidence = Some (Fin 0)\<rparr>))
           = BookingShown b)"
proof -
  let ?d = "\<lparr>ocr_text = Some ''AB12 CDE'', ocr_confidence = Some (Fin 0)\<rparr>"
  let ?s = "page\<lparr>confidenceEl := []\<rparr>"
  note inst = confidence_threshold_defaults [of ?d "[]" ?s]
  have c: "ocr_confidence ?d = Some (Fin 0)" by simp
  have "confidenceEl ?s = []" by simp
  with inst have t: "effective_threshold (confidenceEl ?s) = Fin 45"
    by (simp only:) blast
  from inst have t0: "effective_threshold [] = Fin 45" by blast
  have p: "normalisePlate (ocr_text ?d) = Some ''AB12CDE''"
    using normalise_AB12_CDE by simp
  from inst c have e: "effective_confidence ?d = Fin 55" by blast
  from inst p c t have r: "requests (handleOCRResult ?s ?d) = requests ?s @ [(''AB12CDE'', mockToggle ?s)]"
    and l: "logEl (handleOCRResult ?s ?d) = Detected ''AB12CDE'' (Fin 55) # logEl ?s"
    and f: "lastPlateEl (handleOCRResult ?s ?d) = format_plate ''AB12CDE''"
    by blast+
  have s0: "requests ?s = []" "logEl ?s = []" "mockToggle ?s"
    by (simp_all add: page_def)
  have r': "requests (handleOCRResult ?s ?d) = [(''AB12CDE'', True)]"
    using r s0 by simp
  have l': "logEl (handleOCRResult ?s ?d) = [Detected ''AB12CDE'' (Fin 55)]"
    using l s0 by simp
  have f': "lastPlateEl (handleOCRResult ?s ?d) = ''AB12 CDE''"
    using f format_AB12CDE by simp
  have "(''AB12CDE'', True) \<in> set (requests (handleOCRResult ?s ?d))"
    using r' by simp
  from booking_after_mock_lookup [OF this, of Rejected 0] e t0 s0(1) r' l' f'
  show ?thesis by blast
qed

section \<open>Properties of the scheduler\<close>

definition one_timer :: "scanner \<Rightarrow> bool" where
  \<comment> \<open>at most one timeout is pending, and a pending one is the one \<open>this.timer\<close> holds\<close>
  "one_timer s =
     (0 < next_timeout s \<and> length (timeouts s) \<le> 1
      \<and> (\<forall>t \<in> set (timeouts s).
            timer s = Some (fst t) \<and> 0 < fst t \<and> fst t < next_timeout s))"

definition sched :: "scanner \<Rightarrow> nat option \<times> (nat \<times> jsnum) list \<times> nat" where
  \<comment> \<open>the part of the state the scheduler works on\<close>
  "sched s = (timer s, timeouts s, next_timeout s)"

lemma one_timer_sched: "sched s' = sched s \<Longrightarrow> one_timer s' = one_timer s"
  by (simp add: sched_def one_timer_def)

lemma sched_log [simp]: "sched (log m s) = sched s"
  by (simp add: sched_def log_def)

lemma sched_lookupByReg_call [simp]: "sched (lookupByReg_call s r) = sched s"
  by (simp add: sched_def lookupByReg_call_def)

lemma sched_lookupByReg_resume [simp]: "sched (lookupByReg_resume s q res) = sched s"
  by (simp add: sched_def lookupByReg_resume_def)

lemma sched_handleOCRResult [simp]: "sched (handleOCRResult s d) = sched s"
proof -
  have "sched (s\<lparr>lastPlateEl := v\<rparr>) = sched s" for v
    by (simp add: sched_def)
  then show ?thesis
    by (simp add: handleOCRResult_def Let_def split: option.splits)
qed

lemma sched_captureAndRead [simp]: "sched (captureAndRead s) = sched s"
  by (simp add: sched_def captureAndRead_def)

lemma sched_manual_lookup [simp]: "sched (manual_lookup s) = sched s"
proof -
  have "sched (s\<lparr>lastPlateEl := v\<rparr>) = sched s" for v
    by (simp add: sched_def)
  then show ?thesis
    by (simp add: manual_lookup_def Let_def)
qed

lemma filter_other_handles:
  "h \<notin> fst ` set ts \<Longrightarrow> filter (\<lambda>t. fst t \<noteq> h) ts = ts"
  by (induction ts) auto

lemma one_timer_clear:
  assumes "one_timer s"
  shows "timeouts (clear_timer s) = []" and "next_timeout (clear_timer s) = next_timeout s"
proof -
  show "next_timeout (clear_timer s) = next_timeout s"
    by (cases "timer s") (simp_all add: clear_timer_def clearTimeout_def)
  show "timeouts (clear_timer s) = []"
  proof (cases "timeouts s")
    case Nil
    then show ?thesis
      by (cases "timer s") (simp_all add: clear_timer_def clearTimeout_def)
  next
    case (Cons t ts)
    with assms have "ts = []" "timer s = Some (fst t)" "0 < fst t"
      by (auto simp: one_timer_def)
    with Cons show ?thesis
      by (simp add: clear_timer_def clearTimeout_def)
  qed
qed

lemma scheduleScan_sched:
  "\<exists>d. sched (scheduleScan s)
     = (Some (next_timeout (clear_timer s)),
        timeouts (clear_timer s) @ [(next_timeout (clear_timer s), d)],
        Suc (next_timeout (clear_timer s)))"
  by (simp add: scheduleScan_def setTimeout_def sched_def Let_def)

lemma one_timer_scheduleScan:
  assumes "one_timer s"
  shows "one_timer (scheduleScan s)"
    and "map fst (timeouts (scheduleScan s)) = [next_timeout s]"
    and "timer (scheduleScan s) = Some (next_timeout s)"
proof -
  from scheduleScan_sched [of s] obtain d where
    "sched (scheduleScan s) = (Some (next_timeout s), [(next_timeout s, d)], Suc (next_timeout s))"
    by (auto simp: one_timer_clear [OF assms])
  then have eq: "timer (scheduleScan s) = Some (next_timeout s)"
    "timeouts (scheduleScan s) = [(next_timeout s, d)]"
    "next_timeout (scheduleScan s) = Suc (next_timeout s)"
    by (simp_all add: sched_def)
  from eq show "timer (scheduleScan s) = Some (next_timeout s)" by simp
  from eq show "map fst (timeouts (scheduleScan s)) = [next_timeout s]" by simp
  from eq assms show "one_timer (scheduleScan s)" by (simp add: one_timer_def)
qed

lemma drop_timer_pending:
  "timeouts (drop_timer s) = timeouts (clear_timer s)"
  "next_timeout (drop_timer s) = next_timeout s"
  by (cases "timer s"; simp add: drop_timer_def clear_timer_def clearTimeout_def)+

lemma one_timer_drop:
  assumes "one_timer s"
  shows "one_timer (drop_timer s)"
proof -
  have "timeouts (drop_timer s) = []"
    by (simp add: drop_timer_pending one_timer_clear [OF assms])
  moreover have "0 < next_timeout (drop_timer s)"
    using assms by (simp add: drop_timer_pending one_timer_def)
  ultimately show ?thesis
    by (simp add: one_timer_def)
qed

lemma sched_stopCamera: "sched (stopCamera s) = sched (drop_timer s)"
  by (cases "stream (drop_timer s)") (simp_all add: stopCamera_def Let_def sched_def log_def)

lemma one_timer_stopCamera:
  assumes "one_timer s"
  shows "one_timer (stopCamera s)"
  using one_timer_drop [OF assms] by (simp add: one_timer_sched [OF sched_stopCamera])

lemma one_timer_rearm: "one_timer s \<Longrightarrow> one_timer (rearm s)"
  by (simp add: rearm_def one_timer_scheduleScan(1))

lemma one_timer_fires:
  assumes "one_timer s"
  shows "one_timer (timer_fires h s)"
proof -
  let ?ts = "filter (\<lambda>t. fst t \<noteq> h) (timeouts s)"
  let ?s = "s\<lparr>timeouts := ?ts\<rparr>"
  have "length ?ts \<le> length (timeouts s)"
    by (rule length_filter_le)
  moreover have "length (timeouts s) \<le> 1"
    using assms by (simp add: one_timer_def)
  ultimately have len: "length ?ts \<le> 1" by (rule order_trans)
  have "\<forall>t \<in> set ?ts. timer s = Some (fst t) \<and> 0 < fst t \<and> fst t < next_timeout s"
    using assms by (simp add: one_timer_def)
  with len assms have "one_timer ?s"
    by (simp add: one_timer_def)
  moreover have "one_timer (captureAndRead ?s) = one_timer ?s"
    by (rule one_timer_sched) simp
  ultimately show ?thesis
    using assms by (simp add: timer_fires_def)
qed

lemma one_timer_resume:
  assumes "one_timer s"
  shows "one_timer (captureAndRead_resume s out)"
proof -
  let ?s0 = "s\<lparr>recognizing := recognizing s - 1\<rparr>"
  have s0: "one_timer ?s0"
    using assms by (simp add: one_timer_def)
  have "one_timer (handleOCRResult ?s0 d)" for d
    using s0 one_timer_sched [of "handleOCRResult ?s0 d" ?s0] by simp
  moreover have "one_timer (log OcrError ?s0)"
    using s0 one_timer_sched [of "log OcrError ?s0" ?s0] by simp
  ultimately have "one_timer (case out of Recognized d \<Rightarrow> handleOCRResult ?s0 d
      | RecognizeFailed \<Rightarrow> log OcrError ?s0)"
    by (cases out) simp_all
  then show ?thesis
    unfolding captureAndRead_resume_def Let_def
    using one_timer_scheduleScan(1) by simp
qed

lemma one_timer_field:
  assumes "one_timer s" and "sched s' = sched s"
  shows "one_timer s'"
  using assms one_timer_sched by blast

lemma one_timer_step:
  assumes "one_timer s"
  shows "one_timer (step e s)"
proof (cases e)
  case (StartCalled issues)
  then show ?thesis
    using assms by (auto intro: one_timer_field [OF assms])
next
  case (CameraAcquired h)
  then show ?thesis
    by (auto intro!: one_timer_field [OF assms] simp: sched_def)
next
  case VideoPlaying
  let ?s1 = "log CameraStarted (s\<lparr>startBtn_disabled := True, stopBtn_disabled := False\<rparr>)"
  have "one_timer ?s1"
    by (rule one_timer_field [OF assms]) (simp add: sched_def log_def)
  then show ?thesis
    using VideoPlaying by (simp add: Let_def one_timer_rearm)
next
  case (WorkerCreated w)
  then show ?thesis
    by (auto intro!: one_timer_field [OF assms] simp: sched_def)
next
  case WorkerReady
  have "one_timer (log OcrReady s)"
    by (rule one_timer_field [OF assms]) simp
  then show ?thesis
    using WorkerReady by (simp add: one_timer_rearm)
next
  case (CameraFailed err)
  then show ?thesis
    by (cases err) (auto intro!: one_timer_field [OF assms])
next
  case StopClicked
  then show ?thesis
    using assms by (simp add: one_timer_stopCamera)
next
  case CameraSelected
  then show ?thesis
    using assms by (simp add: one_timer_stopCamera)
next
  case (IntervalChanged v)
  have "one_timer (s\<lparr>intervalEl := v\<rparr>)"
    by (rule one_timer_field [OF assms]) (simp add: sched_def)
  then show ?thesis
    using IntervalChanged by (simp add: Let_def one_timer_scheduleScan(1) split: option.splits)
next
  case (AutoCaptureChanged b)
  have "one_timer (s\<lparr>autoCapture := b'\<rparr>)" for b'
    by (rule one_timer_field [OF assms]) (simp add: sched_def)
  then show ?thesis
    using AutoCaptureChanged by (simp add: Let_def one_timer_scheduleScan(1) one_timer_drop)
next
  case (ConfidenceChanged v)
  then show ?thesis
    by (auto intro!: one_timer_field [OF assms] simp: sched_def)
next
  case (MockToggled b)
  then show ?thesis
    by (auto intro!: one_timer_field [OF assms] simp: sched_def)
next
  case (ManualTyped v)
  then show ?thesis
    by (auto intro!: one_timer_field [OF assms] simp: sched_def)
next
  case LookupClicked
  then show ?thesis
    by (auto intro!: one_timer_field [OF assms])
next
  case (TimerFired h)
  then show ?thesis
    using assms by (simp add: one_timer_fires)
next
  case (OcrFinished out)
  then show ?thesis
    using assms by (simp add: one_timer_resume)
next
  case (UploadRecognized d)
  then show ?thesis
    by (auto intro!: one_timer_field [OF assms])
next
  case (UploadFailed m)
  then show ?thesis
    by (auto intro!: one_timer_field [OF assms])
next
  case (LookupFinished q res now)
  then show ?thesis
    using assms by (auto intro!: one_timer_field [OF assms])
qed

lemma one_timer_run: "one_timer s \<Longrightarrow> one_timer (run es s)"
  unfolding run_def by (induction es arbitrary: s) (simp_all add: one_timer_step)

lemma fresh_one_timer: "fresh s \<Longrightarrow> one_timer s"
  by (simp add: fresh_def one_timer_def)

lemma pending_after_scheduleScan:
  assumes "one_timer s"
  shows "\<exists>d. timeouts (scheduleScan s) = [(next_timeout s, d)]"
  using one_timer_scheduleScan(2) [OF assms]
  by (cases "timeouts (scheduleScan s)") auto

lemma guard_returns:
  assumes "stream s = None \<or> worker s = None"
  shows "captureAndRead s = s"
    and "timer_fires h s = s\<lparr>timeouts := filter (\<lambda>t. fst t \<noteq> h) (timeouts s)\<rparr>"
proof -
  show "captureAndRead s = s"
    using assms by (auto simp: captureAndRead_def)
  show "timer_fires h s = s\<lparr>timeouts := filter (\<lambda>t. fst t \<noteq> h) (timeouts s)\<rparr>"
  proof (cases "h \<in> fst ` set (timeouts s)")
    case True
    then show ?thesis
      using assms by (auto simp: timer_fires_def captureAndRead_def)
  next
    case False
    then show ?thesis
      by (simp add: timer_fires_def filter_other_handles)
  qed
qed

lemma stream_stopCamera: "stream (stopCamera s) = None"
  by (cases "stream (drop_timer s)") (simp_all add: stopCamera_def Let_def log_def)

text \<open>
  C4: in every state that a fresh scanner reaches, at most one timeout is pending. A call
  of \<open>scheduleScan\<close> there leaves exactly one timeout pending, the new one, which
  \<open>this.timer\<close> holds; a timeout that was pending before the call is cancelled, so that
  it does not fire; and when the new timeout fires, none is pending any more.
\<close>

theorem one_scan_timer:
  assumes "fresh s0"
  shows "length (timeouts (run es s0)) \<le> 1
    \<and> map fst (timeouts (scheduleScan (run es s0))) = [next_timeout (run es s0)]
    \<and> timer (scheduleScan (run es s0)) = Some (next_timeout (run es s0))
    \<and> (\<forall>t \<in> set (timeouts (run es s0)).
          fst t \<notin> fst ` set (timeouts (scheduleScan (run es s0)))
          \<and> timer_fires (fst t) (scheduleScan (run es s0)) = scheduleScan (run es s0))
    \<and> timeouts (timer_fires (next_timeout (run es s0)) (scheduleScan (run es s0))) = []"
proof -
  let ?s = "run es s0"
  have inv: "one_timer ?s"
    using assms by (intro one_timer_run fresh_one_timer)
  from pending_after_scheduleScan [OF inv] obtain d where
    ts: "timeouts (scheduleScan ?s) = [(next_timeout ?s, d)]"
    by blast
  have a: "length (timeouts ?s) \<le> 1"
    using inv by (simp add: one_timer_def)
  have b: "map fst (timeouts (scheduleScan ?s)) = [next_timeout ?s]"
    using ts by simp
  have c: "timer (scheduleScan ?s) = Some (next_timeout ?s)"
    by (rule one_timer_scheduleScan(3) [OF inv])
  have d: "\<forall>t \<in> set (timeouts ?s).
          fst t \<notin> fst ` set (timeouts (scheduleScan ?s))
          \<and> timer_fires (fst t) (scheduleScan ?s) = scheduleScan ?s"
  proof
    fix t assume "t \<in> set (timeouts ?s)"
    with inv have "fst t < next_timeout ?s" by (simp add: one_timer_def)
    then have "fst t \<notin> fst ` set (timeouts (scheduleScan ?s))"
      using ts by simp
    then show "fst t \<notin> fst ` set (timeouts (scheduleScan ?s))
          \<and> timer_fires (fst t) (scheduleScan ?s) = scheduleScan ?s"
      by (simp add: timer_fires_def)
  qed
  have "sched (timer_fires (next_timeout ?s) (scheduleScan ?s))
      = sched ((scheduleScan ?s)\<lparr>timeouts := []\<rparr>)"
    using ts by (simp add: timer_fires_def)
  then have e: "timeouts (timer_fires (next_timeout ?s) (scheduleScan ?s)) = []"
    by (simp add: sched_def)
  from a b c d e show ?thesis by blast
qed

lemma Number_1500: "Number ''1500'' = Fin 1500"
  by (simp add: Number_def trim_def signed_decimal_def unsigned_decimal_def digits_val_def
      digit_val_def is_digit_def in_range_def code_def is_space_def Let_def)

lemma interval_1500:
  "js_max (Fin 300) (or_default (Some (Number ''1500'')) (Fin 1500)) = Fin 1500"
  by (simp add: Number_1500 js_max_def js_le_def or_default_def truthy_num_def)

lemma scanning_state:
  "scanning = page\<lparr>stream := Some 7, timer := Some 1, worker := Some 3,
     logEl := [OcrReady, CameraStarted], startBtn_disabled := True, stopBtn_disabled := False,
     timeouts := [(1, Fin 1500)], next_timeout := 2\<rparr>"
  by (simp add: scanning_def run_def page_def rearm_def log_def scheduleScan_def
      clear_timer_def setTimeout_def interval_1500)

lemma fresh_page: "fresh page"
  by (simp add: fresh_def page_def)

theorem one_scan_timer_witness:
  "fresh page
   \<and> timeouts scanning = [(1, Fin 1500)]
   \<and> map fst (timeouts (scheduleScan scanning)) = [2]
   \<and> timer (scheduleScan scanning) = Some 2
   \<and> 1 \<notin> fst ` set (timeouts (scheduleScan scanning))
   \<and> timer_fires 1 (scheduleScan scanning) = scheduleScan scanning
   \<and> timeouts (timer_fires 2 (scheduleScan scanning)) = []"
proof -
  let ?es = "[StartCalled [], CameraAcquired 7, VideoPlaying, WorkerCreated 3, WorkerReady]"
  have r: "run ?es page = scanning"
    by (simp only: scanning_def)
  have ts: "timeouts scanning = [(1, Fin 1500)]" and n: "next_timeout scanning = 2"
    by (simp_all add: scanning_state)
  note inst = one_scan_timer [OF fresh_page, of ?es, unfolded r n]
  from inst have "map fst (timeouts (scheduleScan scanning)) = [2]"
    and "timer (scheduleScan scanning) = Some 2"
    and "timeouts (timer_fires 2 (scheduleScan scanning)) = []"
    by blast+
  moreover from inst ts have "1 \<notin> fst ` set (timeouts (scheduleScan scanning))"
    and "timer_fires 1 (scheduleScan scanning) = scheduleScan scanning"
    by auto
  ultimately show ?thesis
    using fresh_page ts by blast
qed

section \<open>Properties of the scanning cycle\<close>

definition worker_loading :: scanner where
  \<comment> \<open>the example while \<open>startCamera\<close> awaits \<open>loadLanguage\<close>: the worker is created and
      assigned, not yet initialised, and auto-capture was switched off before the start
      and on again now\<close>
  "worker_loading =
     run [AutoCaptureChanged False, StartCalled [], CameraAcquired 7, VideoPlaying,
          WorkerCreated 3, AutoCaptureChanged True] page"

lemma worker_loading_state:
  "worker_loading = page\<lparr>stream := Some 7, timer := Some 1, worker := Some 3,
     logEl := [CameraStarted], startBtn_disabled := True, stopBtn_disabled := False,
     timeouts := [(1, Fin 1500)], next_timeout := 2\<rparr>"
  by (simp add: worker_loading_def run_def page_def log_def scheduleScan_def drop_timer_def
      clear_timer_def setTimeout_def interval_1500)

text \<open>
  C10, as the code has it: when no camera stream is held or no worker has been assigned
  (\<open>this.worker\<close> is \<open>null\<close>), \<open>captureAndRead\<close> returns the state as it found it:
  no frame is drawn, no recognition starts, nothing is logged and no timeout is set. The
  firing of a timeout then changes nothing but the browser's list of pending timeouts,
  which the fired one leaves. After \<open>stopCamera\<close> no stream is held, so this is the
  case there. The guard asks for nothing else of the worker: with a stream, a worker
  and the video element there, a frame is drawn and a recognition starts.
\<close>

theorem captureAndRead_returns_at_guard:
  assumes "stream s = None \<or> worker s = None"
  shows "captureAndRead s = s
    \<and> timer_fires h s = s\<lparr>timeouts := filter (\<lambda>t. fst t \<noteq> h) (timeouts s)\<rparr>
    \<and> stream (stopCamera s') = None
    \<and> captureAndRead (stopCamera s') = stopCamera s'
    \<and> (stream s'' \<noteq> None \<and> worker s'' \<noteq> None \<and> video s'' \<longrightarrow>
         drawn (captureAndRead s'') = Suc (drawn s'')
         \<and> recognizing (captureAndRead s'') = Suc (recognizing s''))"
proof -
  have "stream s'' \<noteq> None \<and> worker s'' \<noteq> None \<and> video s'' \<longrightarrow>
         drawn (captureAndRead s'') = Suc (drawn s'')
         \<and> recognizing (captureAndRead s'') = Suc (recognizing s'')"
    by (simp add: captureAndRead_def)
  with guard_returns [OF assms] guard_returns(1) [of "stopCamera s'"] stream_stopCamera
  show ?thesis by simp
qed

theorem captureAndRead_returns_at_guard_witness:
  "(stream (stopCamera scanning) = None \<or> worker (stopCamera scanning) = None)
   \<and> captureAndRead (stopCamera scanning) = stopCamera scanning
   \<and> timer_fires 1 (stopCamera scanning)
       = (stopCamera scanning)\<lparr>timeouts :=
           filter (\<lambda>t. fst t \<noteq> 1) (timeouts (stopCamera scanning))\<rparr>
   \<and> drawn (captureAndRead worker_loading) = Suc (drawn worker_loading)
   \<and> recognizing (captureAndRead worker_loading) = Suc (recognizing worker_loading)"
proof -
  have g: "stream (stopCamera scanning) = None \<or> worker (stopCamera scanning) = None"
    by (simp add: stream_stopCamera)
  have w: "stream worker_loading \<noteq> None \<and> worker worker_loading \<noteq> None
      \<and> video worker_loading"
    unfolding worker_loading_state by (simp add: page_def)
  from captureAndRead_returns_at_guard [OF g, of 1 scanning worker_loading] g w
  show ?thesis by blast
qed

text \<open>
  C10, as stated, fails for a worker that is there but not initialised: in the example
  \<open>worker_loading\<close> the worker has been assigned and \<open>OCR ready\<close> has not been logged,
  and the timeout that auto-capture set fires. \<open>captureAndRead\<close> passes its guard: it
  draws a frame and starts a recognition.
\<close>

theorem uninitialised_worker_passes_guard:
  "stream worker_loading = Some 7
   \<and> worker worker_loading = Some 3
   \<and> OcrReady \<notin> set (logEl worker_loading)
   \<and> timeouts worker_loading = [(1, Fin 1500)]
   \<and> drawn worker_loading = 0
   \<and> recognizing worker_loading = 0
   \<and> drawn (timer_fires 1 worker_loading) = 1
   \<and> recognizing (timer_fires 1 worker_loading) = 1
   \<and> captureAndRead worker_loading \<noteq> worker_loading"
proof -
  have a: "stream worker_loading = Some 7" "worker worker_loading = Some 3"
    "OcrReady \<notin> set (logEl worker_loading)" "timeouts worker_loading = [(1, Fin 1500)]"
    "drawn worker_loading = 0" "recognizing worker_loading = 0" "video worker_loading"
    unfolding worker_loading_state by (simp_all add: page_def)
  have b: "drawn (timer_fires 1 worker_loading) = 1"
    "recognizing (timer_fires 1 worker_loading) = 1"
    using a by (simp_all add: timer_fires_def captureAndRead_def)
  have "drawn (captureAndRead worker_loading) = 1"
    using a by (simp add: captureAndRead_def)
  with a(5) have c: "captureAndRead worker_loading \<noteq> worker_loading"
    by auto
  from a b c show ?thesis by blast
qed

subsection \<open>A cycle that completes after the camera was stopped\<close>

definition stale_resume :: "scanner \<Rightarrow> ocr_outcome \<Rightarrow> scanner" where
  \<comment> \<open>\<open>stopCamera\<close> runs while a recognition is in flight, and then the recognition
      completes: the rest of \<open>captureAndRead\<close> runs in the stopped scanner\<close>
  "stale_resume s out = captureAndRead_resume (stopCamera s) out"

definition in_flight :: scanner where
  \<comment> \<open>the example after its first timeout fired: a recognition is in flight\<close>
  "in_flight = run [TimerFired 1] scanning"

definition seen_plate :: ocr_data where
  \<comment> \<open>an example of what the recognition gives\<close>
  "seen_plate = \<lparr>ocr_text = Some ''AB12 CDE'', ocr_confidence = Some (Fin 90)\<rparr>"

lemma next_timeout_clear_timer: "next_timeout (clear_timer s) = next_timeout s"
  by (cases "timer s") (simp_all add: clear_timer_def clearTimeout_def)

lemma scheduleScan_keeps:
  "stream (scheduleScan s) = stream s"
  "worker (scheduleScan s) = worker s"
  "lastPlateEl (scheduleScan s) = lastPlateEl s"
  "logEl (scheduleScan s) = logEl s"
  by (cases "timer s";
      simp add: scheduleScan_def setTimeout_def clear_timer_def clearTimeout_def Let_def)+

lemma scheduleScan_arms:
  "timer (scheduleScan s) = Some (next_timeout s)"
  "next_timeout s \<in> fst ` set (timeouts (scheduleScan s))"
proof -
  from scheduleScan_sched [of s] obtain d where
    "sched (scheduleScan s)
       = (Some (next_timeout s), timeouts (clear_timer s) @ [(next_timeout s, d)],
          Suc (next_timeout s))"
    by (auto simp: next_timeout_clear_timer)
  then have "timer (scheduleScan s) = Some (next_timeout s)"
    and "timeouts (scheduleScan s) = timeouts (clear_timer s) @ [(next_timeout s, d)]"
    by (simp_all add: sched_def)
  then show "timer (scheduleScan s) = Some (next_timeout s)"
    and "next_timeout s \<in> fst ` set (timeouts (scheduleScan s))"
    by simp_all
qed

lemma handleOCRResult_keeps:
  "stream (handleOCRResult s d) = stream s"
  "autoCapture (handleOCRResult s d) = autoCapture s"
  by (simp_all add: handleOCRResult_def log_def lookupByReg_call_def Let_def
      split: option.splits)

lemma handleOCRResult_found:
  assumes "normalisePlate (ocr_text d) = Some p"
  shows "lastPlateEl (handleOCRResult s d) = format_plate p"
    and "logEl (handleOCRResult s d) = Detected p (effective_confidence d) # logEl s"
  using assms normalisePlate_nonempty [OF assms]
  by (simp_all add: handleOCRResult_def log_def lookupByReg_call_def Let_def)

lemma stopCamera_keeps:
  "autoCapture (stopCamera s) = autoCapture s"
  "next_timeout (stopCamera s) = next_timeout s"
  "logEl (stopCamera s) = CameraStopped # logEl s"
  by (cases "timer s"; cases "stream (drop_timer s)";
      simp add: stopCamera_def drop_timer_def clearTimeout_def Let_def log_def)+

lemma stale_resume_unfold:
  "stale_resume s out =
     rearm (case out of
              Recognized d \<Rightarrow>
                handleOCRResult ((stopCamera s)\<lparr>recognizing := recognizing (stopCamera s) - 1\<rparr>) d
            | RecognizeFailed \<Rightarrow>
                log OcrError ((stopCamera s)\<lparr>recognizing := recognizing (stopCamera s) - 1\<rparr>))"
  unfolding stale_resume_def captureAndRead_resume_def rearm_def Let_def by (rule refl)

lemma stale_resume_fields:
  "stream (stale_resume s out) = None"
  "autoCapture s \<Longrightarrow> timer (stale_resume s out) = Some (next_timeout s)"
  "autoCapture s \<Longrightarrow> next_timeout s \<in> fst ` set (timeouts (stale_resume s out))"
proof -
  let ?s0 = "(stopCamera s)\<lparr>recognizing := recognizing (stopCamera s) - 1\<rparr>"
  let ?s1 = "case out of Recognized d \<Rightarrow> handleOCRResult ?s0 d
      | RecognizeFailed \<Rightarrow> log OcrError ?s0"
  have st: "stream ?s1 = None"
    by (cases out) (simp_all add: handleOCRResult_keeps stream_stopCamera log_def)
  have au: "autoCapture ?s1 = autoCapture s"
    by (cases out) (simp_all add: handleOCRResult_keeps stopCamera_keeps log_def)
  have "sched ?s1 = sched ?s0"
    by (cases out) simp_all
  then have "next_timeout ?s1 = next_timeout ?s0"
    by (simp add: sched_def)
  then have nx: "next_timeout ?s1 = next_timeout s"
    by (simp add: stopCamera_keeps)
  show "stream (stale_resume s out) = None"
    unfolding stale_resume_unfold using st by (simp add: rearm_def scheduleScan_keeps)
  show "timer (stale_resume s out) = Some (next_timeout s)" if "autoCapture s"
    unfolding stale_resume_unfold using that au nx scheduleScan_arms(1) [of ?s1]
    by (simp add: rearm_def)
  show "next_timeout s \<in> fst ` set (timeouts (stale_resume s out))" if "autoCapture s"
    unfolding stale_resume_unfold using that au nx scheduleScan_arms(2) [of ?s1]
    by (simp add: rearm_def)
qed

lemma stale_resume_display:
  assumes "normalisePlate (ocr_text d) = Some p"
  shows "lastPlateEl (stale_resume s (Recognized d)) = format_plate p"
    and "logEl (stale_resume s (Recognized d))
       = Detected p (effective_confidence d) # CameraStopped # logEl s"
  unfolding stale_resume_unfold
  by (simp_all add: rearm_def scheduleScan_keeps handleOCRResult_found [OF assms]
      stopCamera_keeps)

text \<open>
  C2, as the code has it: the rest of a cycle that completes after \<open>stopCamera\<close> does not
  look at the state of the scanner. It shows and logs the plate it found, and sets a new
  timeout when auto-capture is checked. The scanner stays without a stream, so that the
  firing of that timeout returns at the guard of \<open>captureAndRead\<close>: it changes nothing
  but the browser's list of pending timeouts.
\<close>

theorem stale_cycle_completes:
  "stream (stale_resume s out) = None
   \<and> (autoCapture s \<longrightarrow>
        timer (stale_resume s out) = Some (next_timeout s)
        \<and> next_timeout s \<in> fst ` set (timeouts (stale_resume s out)))
   \<and> (\<forall>d p. out = Recognized d \<and> normalisePlate (ocr_text d) = Some p \<longrightarrow>
        lastPlateEl (stale_resume s out) = format_plate p
        \<and> logEl (stale_resume s out)
            = Detected p (effective_confidence d) # CameraStopped # logEl s)
   \<and> (\<forall>h. timer_fires h (stale_resume s out)
        = (stale_resume s out)\<lparr>timeouts :=
            filter (\<lambda>t. fst t \<noteq> h) (timeouts (stale_resume s out))\<rparr>)"
proof -
  have a: "stream (stale_resume s out) = None"
    by (rule stale_resume_fields(1))
  have b: "autoCapture s \<longrightarrow>
        timer (stale_resume s out) = Some (next_timeout s)
        \<and> next_timeout s \<in> fst ` set (timeouts (stale_resume s out))"
    using stale_resume_fields(2,3) by blast
  have c: "\<forall>d p. out = Recognized d \<and> normalisePlate (ocr_text d) = Some p \<longrightarrow>
        lastPlateEl (stale_resume s out) = format_plate p
        \<and> logEl (stale_resume s out)
            = Detected p (effective_confidence d) # CameraStopped # logEl s"
    using stale_resume_display by blast
  have d: "\<forall>h. timer_fires h (stale_resume s out)
        = (stale_resume s out)\<lparr>timeouts :=
            filter (\<lambda>t. fst t \<noteq> h) (timeouts (stale_resume s out))\<rparr>"
    using guard_returns(2) [of "stale_resume s out"] a by blast
  from a b c d show ?thesis by blast
qed

lemma in_flight_state:
  "in_flight
     = scanning\<lparr>frame := (Fin 640, frame_height (1280, 720)), drawn := 1, timeouts := [],
         recognizing := 1\<rparr>"
  by (simp add: in_flight_def run_def timer_fires_def captureAndRead_def scanning_state page_def)

lemma stopped_in_flight:
  "run [StopClicked] in_flight = stopCamera in_flight"
  "run [StopClicked, OcrFinished out] in_flight
     = step (OcrFinished out) (stopCamera in_flight)"
  by (simp_all add: run_def)

lemma stopped_fields:
  "stream (stopCamera in_flight) = None"
  "timer (stopCamera in_flight) = None"
  "timeouts (stopCamera in_flight) = []"
  "lastPlateEl (stopCamera in_flight) = []"
  "recognizing (stopCamera in_flight) = 1"
  "autoCapture (stopCamera in_flight)"
  "next_timeout (stopCamera in_flight) = 2"
  "intervalEl (stopCamera in_flight) = ''1500''"
  unfolding in_flight_state
  by (simp_all add: scanning_state page_def stopCamera_def drop_timer_def
      clearTimeout_def log_def Let_def)

theorem stale_cycle_witness:
  "autoCapture in_flight
   \<and> normalisePlate (ocr_text seen_plate) = Some ''AB12CDE''
   \<and> stream (stale_resume in_flight (Recognized seen_plate)) = None
   \<and> timer (stale_resume in_flight (Recognized seen_plate)) = Some 2
   \<and> lastPlateEl (stale_resume in_flight (Recognized seen_plate))
       = format_plate ''AB12CDE''"
proof -
  let ?s = "in_flight"
  have au: "autoCapture ?s" and nx: "next_timeout ?s = 2"
    unfolding in_flight_state by (simp_all add: scanning_state page_def)
  have p: "normalisePlate (ocr_text seen_plate) = Some ''AB12CDE''"
    by (simp add: seen_plate_def normalise_AB12_CDE)
  from stale_cycle_completes [of ?s "Recognized seen_plate"] au p nx
  show ?thesis by auto
qed

lemma scheduleScan_timeouts:
  "timeouts (scheduleScan s)
     = timeouts (clear_timer s)
       @ [(next_timeout s, js_max (Fin 300) (or_default (Some (Number (intervalEl s))) (Fin 1500)))]"
  by (cases "timer s";
      simp add: scheduleScan_def setTimeout_def clear_timer_def clearTimeout_def Let_def)

lemma handleOCRResult_intervalEl: "intervalEl (handleOCRResult s d) = intervalEl s"
  by (simp add: handleOCRResult_def log_def lookupByReg_call_def Let_def split: option.splits)

lemma stale_example_pending:
  "timeouts (stale_resume in_flight (Recognized seen_plate))
     = [(2, Fin 1500)]"
proof -
  let ?s = "stopCamera in_flight"
  let ?s0 = "?s\<lparr>recognizing := recognizing ?s - 1\<rparr>"
  let ?s1 = "handleOCRResult ?s0 seen_plate"
  have "sched ?s1 = sched ?s0" by simp
  then have "sched ?s1 = (None, [], 2)"
    by (simp add: sched_def stopped_fields)
  then have f: "timer ?s1 = None" "timeouts ?s1 = []" "next_timeout ?s1 = 2"
    by (simp_all add: sched_def)
  have i: "intervalEl ?s1 = ''1500''"
    by (simp add: handleOCRResult_intervalEl stopped_fields)
  have a: "autoCapture ?s1"
    by (simp add: handleOCRResult_keeps stopped_fields)
  have "clear_timer ?s1 = ?s1"
    using f by (simp add: clear_timer_def)
  then have "timeouts (scheduleScan ?s1) = [(2, Fin 1500)]"
    using f i by (simp add: scheduleScan_timeouts interval_1500)
  then show ?thesis
    unfolding stale_resume_unfold using a by (simp add: rearm_def)
qed

text \<open>
  C2, as stated, fails: in the example the camera is stopped while the
  first scan is being recognised (\<open>in_flight\<close>). After \<open>stopCamera\<close> no stream is
  held, no timeout is pending and the last plate is empty; the completion of the
  recognition then sets the timeout 2 and writes \<open>AB12 CDE\<close> as the last plate.
\<close>

theorem stale_cycle_rearms_and_displays:
  "stream (run [StopClicked] in_flight) = None
   \<and> timer (run [StopClicked] in_flight) = None
   \<and> timeouts (run [StopClicked] in_flight) = []
   \<and> lastPlateEl (run [StopClicked] in_flight) = []
   \<and> timer (run [StopClicked, OcrFinished (Recognized seen_plate)] in_flight)
       = Some 2
   \<and> timeouts (run [StopClicked, OcrFinished (Recognized seen_plate)] in_flight)
       = [(2, Fin 1500)]
   \<and> lastPlateEl (run [StopClicked, OcrFinished (Recognized seen_plate)] in_flight)
       = ''AB12 CDE''"
proof -
  let ?s = "in_flight"
  have au: "autoCapture ?s" and nx: "next_timeout ?s = 2"
    unfolding in_flight_state by (simp_all add: scanning_state page_def)
  have p: "normalisePlate (ocr_text seen_plate) = Some ''AB12CDE''"
    by (simp add: seen_plate_def normalise_AB12_CDE)
  have r: "run [StopClicked, OcrFinished (Recognized seen_plate)] in_flight
      = stale_resume ?s (Recognized seen_plate)"
    unfolding stopped_in_flight(2) stale_resume_def
    by (simp add: stopped_fields(5))
  have a: "timer (stale_resume ?s (Recognized seen_plate)) = Some 2"
    using stale_resume_fields(2) [OF au] nx by simp
  have b: "lastPlateEl (stale_resume ?s (Recognized seen_plate)) = ''AB12 CDE''"
    using stale_resume_display(1) [OF p] format_AB12CDE by simp
  show ?thesis
    unfolding r stopped_in_flight(1)
    using a b stale_example_pending stopped_fields(1-4) by simp
qed

end
